theory Spec2Isabelle
  imports Main "HOL-Library.Word"
begin

unbundle bit_operations_syntax

chapter \<open>Dragon 32 emulator: disk controller, cassette trap and video generator\<close>

text \<open>
  A shallow embedding of three peripherals of the emulator: the WD2797 floppy controller
  (\<^verbatim>\<open>disk.c\<close>), the cassette-tape capture trap (\<^verbatim>\<open>tape.c\<close>) and the MC6847
  video display generator (\<^verbatim>\<open>vdg.c\<close>). File-scope statics of the C modules become
  fields of one record per module; every handler takes the record and returns the
  updated one. \<^verbatim>\<open>rpi_halt()\<close> never returns (it aborts or spins), so a handler that
  reaches it returns a fault instead of a state.
\<close>

type_synonym byte = "8 word"

datatype mem_operation_t = MEM_READ | MEM_WRITE

datatype fault = HALT | ARRAY_BOUNDS

section \<open>The image byte stream under the disk controller and the tape trap\<close>

text \<open>
  \<^verbatim>\<open>loader_disk_fseek\<close>, \<^verbatim>\<open>loader_disk_fread\<close> and \<^verbatim>\<open>loader_disk_fwrite\<close> forward to
  \<^verbatim>\<open>fat32_fseek\<close>, \<^verbatim>\<open>fat32_fread\<close> and \<^verbatim>\<open>fat32_fwrite\<close> on the mounted image, and
  \<^verbatim>\<open>loader_tape_fwrite\<close> forwards to \<^verbatim>\<open>fat32_fwrite\<close> on the mounted CAS file. The
  cluster chain and the sector cache of the FAT32 layer are folded into the contents of
  the file: a file is its bytes, the position and the end-of-file flag those functions
  maintain. Block-device faults are not modelled. The callers in \<^verbatim>\<open>disk.c\<close> ignore the
  returned codes and the tape trap only prints the one it gets, so only the effect on the
  file and on the caller's buffer is kept.
\<close>

datatype loader_file_type_t = FILE_NONE | FILE_ROM | FILE_CAS | FILE_VDK | FILE_DSK | FILE_OTHER

record file_param_t =
  file_is_open :: bool
  file_bytes :: "byte list"
  current_position :: nat
  eof_flag :: bool

definition fat32_fseek :: "file_param_t \<Rightarrow> nat \<Rightarrow> file_param_t" where
  "fat32_fseek f byte_position =
     (if \<not> file_is_open f then f
      else if byte_position > length (file_bytes f) then f
      else f\<lparr>current_position := byte_position,
             eof_flag := (byte_position = length (file_bytes f))\<rparr>)"

text \<open>The bytes delivered to the caller's buffer, and the file afterwards.\<close>

definition fat32_fread :: "file_param_t \<Rightarrow> nat \<Rightarrow> byte list \<times> file_param_t" where
  "fat32_fread f buffer_length =
     (if \<not> file_is_open f then ([], f)
      else if eof_flag f then ([], f)
      else if buffer_length = 0 then ([], f)
      else
        let r = min buffer_length (length (file_bytes f) - current_position f);
            file_position = current_position f + r
        in (take r (drop (current_position f) (file_bytes f)),
            f\<lparr>current_position := file_position,
              eof_flag := (file_position = length (file_bytes f))\<rparr>))"

definition fat32_fwrite :: "file_param_t \<Rightarrow> byte list \<Rightarrow> file_param_t" where
  "fat32_fwrite f buf =
     (if \<not> file_is_open f then f
      else if length (file_bytes f) = 0 then f
      else
        let file_position = current_position f + length buf;
            bytes' = take (current_position f) (file_bytes f) @ buf
                     @ drop file_position (file_bytes f)
        in f\<lparr>file_bytes := bytes',
             current_position := file_position,
             eof_flag := (file_position = length bytes')\<rparr>)"

text \<open>A read of \<open>n\<close> bytes into a C array overwrites its first cells with what was read.\<close>

definition read_into :: "byte list \<Rightarrow> byte list \<Rightarrow> byte list" where
  "read_into got buf = take (length buf) got @ drop (length got) buf"

section \<open>WD2797 disk controller (disk.c)\<close>

definition WDCmdRestore :: byte where "WDCmdRestore = 0x00"
definition WDCmdSeek :: byte where "WDCmdSeek = 0x10"
definition WDCmdReadSec :: byte where "WDCmdReadSec = 0x88"
definition WDCmdWriteSec :: byte where "WDCmdWriteSec = 0xA8"
definition WDCmdReadAddr :: byte where "WDCmdReadAddr = 0xC0"
definition WDCmdForceInt :: byte where "WDCmdForceInt = 0xD0"
definition WDCmdWriteTrack :: byte where "WDCmdWriteTrack = 0xF4"
definition WDCmdStepMask :: byte where "WDCmdStepMask = 0xFC"

definition WDTrack0 :: byte where "WDTrack0 = 0x04"
definition WDDRQ :: byte where "WDDRQ = 0x02"
definition WDBusy :: byte where "WDBusy = 0x01"

definition NMIE :: byte where "NMIE = 0x20"
definition SDensE :: byte where "SDensE = 0x08"
definition MotorOn :: byte where "MotorOn = 0x04"
definition DriveMask :: byte where "DriveMask = 0x03"

definition SEC_PER_TRACK :: int where "SEC_PER_TRACK = 18"
definition SECTOR_SIZE :: int where "SECTOR_SIZE = 256"
definition BYTES_PER_TRACK :: int where "BYTES_PER_TRACK = SEC_PER_TRACK * SECTOR_SIZE"
definition ID_FIELD_SIZE :: int where "ID_FIELD_SIZE = 6"
definition DISK_INT_INTERVAL :: "32 word" where "DISK_INT_INTERVAL = 1000"
definition INIT_SEC_FILL :: byte where "INIT_SEC_FILL = 0xE5"
definition INIT_BYTE_SKIP :: int where "INIT_BYTE_SKIP = 111"

datatype disk_state_t =
  DISK_UNDEFINED | DISK_IDLE | DISK_READ | DISK_WRITE | DISK_READ_ID | DISK_WRITE_TRK

text \<open>
  The module's statics and the two loader statics it reads. \<open>vdk_header\<close> is the
  12-byte \<^verbatim>\<open>disk_vdk_header_t\<close> as \<^verbatim>\<open>loader_disk_fread\<close> fills it; \<open>nmi_count\<close> and
  \<open>firq_count\<close> count the calls of \<^verbatim>\<open>cpu_nmi_trigger()\<close> and \<^verbatim>\<open>pia_cart_firq()\<close>;
  \<open>motor_led\<close> is the line driven by \<^verbatim>\<open>rpi_motor_led_on/off\<close>.
\<close>

record disk_t =
  disk_cmd :: byte
  disk_status :: byte
  disk_track :: byte
  disk_sector :: byte
  disk_data :: byte
  motor_on :: int
  disk_drive_num :: int
  disk_double_density :: int
  nmi_inhibit :: int
  state :: disk_state_t
  vdk_header :: "byte list"
  buffer :: "byte list"
  buffer_index :: int
  time_mark :: "32 word"
  disk_img_file :: file_param_t
  disk_img_file_type :: loader_file_type_t
  nmi_count :: nat
  firq_count :: nat
  motor_led :: bool

text \<open>
  \<^verbatim>\<open>header_size\<close> is the \<^verbatim>\<open>uint16_t\<close> at bytes 2 and 3 of the header, low byte first.
\<close>

definition header_size :: "byte list \<Rightarrow> 16 word" where
  "header_size h = ucast (h ! 2) + 256 * ucast (h ! 3)"

definition disk_to_image_offset :: "16 word \<Rightarrow> 16 word \<Rightarrow> 32 word" where
  "disk_to_image_offset track sector =
     word_of_int (SECTOR_SIZE * (SEC_PER_TRACK * uint track + (uint sector - 1)))"

definition disk_intrq :: "disk_t \<Rightarrow> disk_t" where
  "disk_intrq d = (if nmi_inhibit d = 0 then d\<lparr>nmi_count := nmi_count d + 1\<rparr> else d)"

text \<open>Checked array access: C leaves an index outside the array undefined.\<close>

definition buffer_get :: "byte list \<Rightarrow> int \<Rightarrow> fault + byte" where
  "buffer_get b i = (if 0 \<le> i \<and> i < int (length b) then Inr (b ! nat i) else Inl ARRAY_BOUNDS)"

definition buffer_set :: "byte list \<Rightarrow> int \<Rightarrow> byte \<Rightarrow> fault + byte list" where
  "buffer_set b i v =
     (if 0 \<le> i \<and> i < int (length b) then Inr (b[nat i := v]) else Inl ARRAY_BOUNDS)"

text \<open>
  The three commands that address the image share the seek-address computation: the
  offset of the sector, plus the header size of a VDK image, whose header is read again
  from the start of the file at every command.
\<close>

definition read_vdk_header :: "disk_t \<Rightarrow> disk_t" where
  "read_vdk_header d =
     (let f0 = fat32_fseek (disk_img_file d) 0;
          (got, f1) = fat32_fread f0 12
      in d\<lparr>vdk_header := read_into got (vdk_header d), disk_img_file := f1\<rparr>)"

definition cmd_seek_address :: "disk_t \<Rightarrow> 32 word \<times> disk_t" where
  "cmd_seek_address d =
     (let seek_address = disk_to_image_offset (ucast (disk_track d)) (ucast (disk_sector d))
      in if disk_img_file_type d = FILE_VDK
         then (let d1 = read_vdk_header d
               in (seek_address + ucast (header_size (vdk_header d1)), d1))
         else (seek_address, d))"

definition io_handler_wd2797_cmd_stat ::
  "disk_t \<Rightarrow> byte \<Rightarrow> mem_operation_t \<Rightarrow> fault + (disk_t \<times> byte)" where
  "io_handler_wd2797_cmd_stat d0 data op =
     (case op of
        MEM_READ \<Rightarrow> Inr (d0, disk_status d0)
      | MEM_WRITE \<Rightarrow>
         (let d = d0\<lparr>disk_cmd := data\<rparr> in
          if data = WDCmdForceInt then
            Inr (d\<lparr>state := DISK_IDLE, disk_status := 0\<rparr>, 0)
          else if disk_status d AND WDBusy = 0 then
            (if data AND WDCmdStepMask = WDCmdRestore then
               Inr (disk_intrq (d\<lparr>state := DISK_IDLE, disk_track := 0,
                                  disk_status := WDTrack0\<rparr>), 0)
             else if data AND WDCmdStepMask = WDCmdSeek then
               (let d1 = d\<lparr>state := DISK_IDLE, disk_track := disk_data d\<rparr>;
                    d2 = (if disk_track d1 = 0 then d1\<lparr>disk_status := WDTrack0\<rparr>
                          else d1\<lparr>disk_status := 0\<rparr>)
                in Inr (disk_intrq d2, 0))
             else if data = WDCmdReadSec then
               (if disk_img_file_type d \<noteq> FILE_NONE then
                  (let (seek_address, d1) = cmd_seek_address (d\<lparr>state := DISK_READ\<rparr>);
                       f1 = fat32_fseek (disk_img_file d1) (unat seek_address);
                       (got, f2) = fat32_fread f1 (nat SECTOR_SIZE)
                   in Inr (d1\<lparr>disk_img_file := f2,
                                buffer := read_into got (buffer d1),
                                disk_status := WDBusy,
                                buffer_index := 0\<rparr>, 0))
                else Inr (d, 0))
             else if data = WDCmdWriteSec then
               (if disk_img_file_type d \<noteq> FILE_NONE then
                  (let (seek_address, d1) = cmd_seek_address (d\<lparr>state := DISK_WRITE\<rparr>);
                       f1 = fat32_fseek (disk_img_file d1) (unat seek_address)
                   in Inr (d1\<lparr>disk_img_file := f1,
                                disk_status := WDBusy,
                                buffer_index := 0\<rparr>, 0))
                else Inr (d, 0))
             else if data = WDCmdReadAddr then
               (let b = (buffer d)[0 := disk_track d, 1 := 1, 2 := disk_sector d,
                                   3 := 0xFF, 4 := 0xBE, 5 := 0xEF]
                in Inr (d\<lparr>state := DISK_READ_ID, buffer := b,
                             disk_status := WDBusy, buffer_index := 0\<rparr>, 0))
             else if data = WDCmdWriteTrack then
               (if disk_img_file_type d \<noteq> FILE_NONE then
                  (let (seek_address, d1) = cmd_seek_address (d\<lparr>state := DISK_WRITE_TRK\<rparr>)
                   in Inr (d1\<lparr>disk_status := WDBusy, buffer_index := 0\<rparr>, 0))
                else Inr (d, 0))
             else Inl HALT)
          else Inr (d, 0)))"

definition io_handler_wd2797_track ::
  "disk_t \<Rightarrow> byte \<Rightarrow> mem_operation_t \<Rightarrow> disk_t \<times> byte" where
  "io_handler_wd2797_track d data op =
     (if \<not> (disk_status d \<noteq> 0 \<and> WDBusy \<noteq> 0) \<and> op = MEM_WRITE
      then (d\<lparr>disk_track := data\<rparr>, 0)
      else (d, disk_track d))"

definition io_handler_wd2797_sector ::
  "disk_t \<Rightarrow> byte \<Rightarrow> mem_operation_t \<Rightarrow> disk_t \<times> byte" where
  "io_handler_wd2797_sector d data op =
     (if \<not> (disk_status d \<noteq> 0 \<and> WDBusy \<noteq> 0) \<and> op = MEM_WRITE
      then (d\<lparr>disk_sector := data\<rparr>, 0)
      else (d, disk_sector d))"

definition io_handler_wd2797_data ::
  "disk_t \<Rightarrow> byte \<Rightarrow> mem_operation_t \<Rightarrow> fault + (disk_t \<times> byte)" where
  "io_handler_wd2797_data d data op =
     (case state d of
        DISK_IDLE \<Rightarrow>
          (if op = MEM_READ then Inr (d, disk_data d)
           else Inr (d\<lparr>disk_data := data\<rparr>, 0))
      | DISK_READ \<Rightarrow>
          (if op = MEM_READ then
             (case buffer_get (buffer d) (buffer_index d) of
                Inl e \<Rightarrow> Inl e
              | Inr v \<Rightarrow>
                 (let d1 = d\<lparr>disk_data := v,
                              disk_status := disk_status d AND NOT WDDRQ,
                              buffer_index := buffer_index d + 1\<rparr>;
                      d2 = (if buffer_index d1 = SECTOR_SIZE
                            then d1\<lparr>state := DISK_IDLE,
                                    disk_status := disk_status d1 AND NOT WDBusy\<rparr>
                            else d1)
                  in Inr (d2, v)))
           else Inr (d, 0))
      | DISK_WRITE \<Rightarrow>
          (if op = MEM_WRITE then
             (case buffer_set (buffer d) (buffer_index d) data of
                Inl e \<Rightarrow> Inl e
              | Inr b \<Rightarrow>
                 (let d1 = d\<lparr>disk_data := data, buffer := b,
                              disk_status := disk_status d AND NOT WDDRQ,
                              buffer_index := buffer_index d + 1\<rparr>;
                      d2 = (if buffer_index d1 = SECTOR_SIZE
                            then d1\<lparr>state := DISK_IDLE,
                                    disk_img_file :=
                                      fat32_fwrite (disk_img_file d1)
                                        (take (nat SECTOR_SIZE) (buffer d1)),
                                    disk_status := disk_status d1 AND NOT WDBusy\<rparr>
                            else d1)
                  in Inr (d2, 0)))
           else Inr (d, 0))
      | DISK_READ_ID \<Rightarrow>
          (if op = MEM_READ then
             (case buffer_get (buffer d) (buffer_index d) of
                Inl e \<Rightarrow> Inl e
              | Inr v \<Rightarrow>
                 (let d1 = d\<lparr>disk_data := v,
                              disk_status := disk_status d AND NOT WDDRQ,
                              buffer_index := buffer_index d + 1\<rparr>;
                      d2 = (if buffer_index d1 = ID_FIELD_SIZE
                            then d1\<lparr>state := DISK_IDLE,
                                    disk_status := disk_status d1 AND NOT (WDBusy + WDDRQ)\<rparr>
                            else d1)
                  in Inr (d2, v)))
           else Inr (d, 0))
      | DISK_WRITE_TRK \<Rightarrow>
          (if op = MEM_WRITE then
             (let d1 = d\<lparr>disk_data := data,
                          disk_status := disk_status d AND NOT WDDRQ\<rparr>
              in if buffer_index d1 < INIT_BYTE_SKIP then
                   Inr (d1\<lparr>buffer_index := buffer_index d1 + 1\<rparr>, 0)
                 else if buffer_index d1 < INIT_BYTE_SKIP + 4 then
                   (case buffer_set (buffer d1) (buffer_index d1) data of
                      Inl e \<Rightarrow> Inl e
                    | Inr b \<Rightarrow> Inr (d1\<lparr>buffer := b, buffer_index := buffer_index d1 + 1\<rparr>, 0))
                 else
                   (case buffer_get (buffer d1) INIT_BYTE_SKIP of
                      Inl e \<Rightarrow> Inl e
                    | Inr t \<Rightarrow>
                       (let seek_address = disk_to_image_offset (ucast t) 1
                                           + ucast (header_size (vdk_header d1));
                            b = replicate (nat BYTES_PER_TRACK) INIT_SEC_FILL;
                            f1 = fat32_fseek (disk_img_file d1) (unat seek_address);
                            f2 = fat32_fwrite f1 b
                        in Inr (d1\<lparr>state := DISK_IDLE, buffer := b, disk_img_file := f2,
                                     disk_status := disk_status d1 AND NOT WDBusy\<rparr>, 0))))
           else Inr (d, 0))
      | DISK_UNDEFINED \<Rightarrow> Inl HALT)"

definition io_handler_drive_ctrl ::
  "disk_t \<Rightarrow> byte \<Rightarrow> mem_operation_t \<Rightarrow> fault + (disk_t \<times> byte)" where
  "io_handler_drive_ctrl d data op =
     (let new_drive_num = uint (data AND DriveMask);
          d1 = d\<lparr>nmi_inhibit := (if data AND NMIE \<noteq> 0 then 0 else 1),
                  motor_on := (if data AND MotorOn \<noteq> 0 then 1 else 0),
                  disk_double_density := (if data AND SDensE \<noteq> 0 then 1 else 0)\<rparr>
      in if new_drive_num \<noteq> disk_drive_num d1 then Inl HALT
         else Inr (d1\<lparr>motor_led := (motor_on d1 \<noteq> 0)\<rparr>, data))"

text \<open>
  \<^verbatim>\<open>disk_io_interrupt()\<close> reads \<^verbatim>\<open>rpi_system_timer()\<close> at three places; \<open>t_mark\<close>,
  \<open>t_now\<close> and \<open>t_rearm\<close> are the values those reads return (a read that is not reached
  does not use its value). The differences are unsigned 32-bit.
\<close>

definition disk_io_interrupt ::
  "disk_t \<Rightarrow> 32 word \<Rightarrow> 32 word \<Rightarrow> 32 word \<Rightarrow> fault + disk_t" where
  "disk_io_interrupt d0 t_mark t_now t_rearm =
     (let d = (if state d0 \<noteq> DISK_IDLE \<and> time_mark d0 = 0
               then d0\<lparr>time_mark := t_mark\<rparr> else d0);
          duration = (if state d = DISK_IDLE then 250 * DISK_INT_INTERVAL
                      else DISK_INT_INTERVAL)
      in if time_mark d \<noteq> 0 \<and> t_now - time_mark d \<ge> duration then
           (if state d = DISK_READ \<or> state d = DISK_WRITE \<or>
               state d = DISK_READ_ID \<or> state d = DISK_WRITE_TRK
            then Inr (d\<lparr>time_mark := t_rearm,
                         disk_status := disk_status d OR WDDRQ,
                         firq_count := firq_count d + 1\<rparr>)
            else if state d = DISK_IDLE
            then Inr (disk_intrq (d\<lparr>time_mark := 0\<rparr>))
            else Inl HALT)
         else Inr d)"

text \<open>
  \<^verbatim>\<open>disk_init()\<close> sets the registers; the statics it does not touch keep the zeros of
  C static storage. The mounted image and its type belong to the loader.
\<close>

definition disk_init :: "file_param_t \<Rightarrow> loader_file_type_t \<Rightarrow> disk_t" where
  "disk_init f ty =
     \<lparr>disk_cmd = WDCmdRestore, disk_status = WDTrack0, disk_track = 0, disk_sector = 1,
      disk_data = 0, motor_on = 0, disk_drive_num = 0, disk_double_density = 0,
      nmi_inhibit = 1, state = DISK_IDLE,
      vdk_header = replicate 12 0, buffer = replicate (nat BYTES_PER_TRACK) 0,
      buffer_index = 0, time_mark = 0,
      disk_img_file = f, disk_img_file_type = ty,
      nmi_count = 0, firq_count = 0, motor_led = False\<rparr>"

text \<open>
  The loader mounting a VDK image (\<^verbatim>\<open>loader()\<close>, the \<^verbatim>\<open>FILE_VDK\<close> branch): the old
  file is closed, the new one opened at position 0.
\<close>

definition fat32_fopen :: "byte list \<Rightarrow> file_param_t" where
  "fat32_fopen bytes =
     \<lparr>file_is_open = True, file_bytes = bytes, current_position = 0,
      eof_flag = (length bytes = 0)\<rparr>"

definition loader_mount_vdk :: "disk_t \<Rightarrow> byte list \<Rightarrow> disk_t" where
  "loader_mount_vdk d bytes = d\<lparr>disk_img_file := fat32_fopen bytes, disk_img_file_type := FILE_VDK\<rparr>"

subsection \<open>Sequences of controller operations\<close>

datatype disk_op =
    CmdStat byte mem_operation_t
  | TrackReg byte mem_operation_t
  | SectorReg byte mem_operation_t
  | DataReg byte mem_operation_t
  | DriveCtrl byte mem_operation_t
  | Tick "32 word" "32 word" "32 word"
  | Mount "byte list"

fun disk_step :: "disk_t \<Rightarrow> disk_op \<Rightarrow> fault + disk_t" where
  "disk_step d (CmdStat data op) = map_sum id fst (io_handler_wd2797_cmd_stat d data op)"
| "disk_step d (TrackReg data op) = Inr (fst (io_handler_wd2797_track d data op))"
| "disk_step d (SectorReg data op) = Inr (fst (io_handler_wd2797_sector d data op))"
| "disk_step d (DataReg data op) = map_sum id fst (io_handler_wd2797_data d data op)"
| "disk_step d (DriveCtrl data op) = map_sum id fst (io_handler_drive_ctrl d data op)"
| "disk_step d (Tick t_mark t_now t_rearm) = disk_io_interrupt d t_mark t_now t_rearm"
| "disk_step d (Mount bytes) = Inr (loader_mount_vdk d bytes)"

fun disk_run :: "disk_t \<Rightarrow> disk_op list \<Rightarrow> fault + disk_t" where
  "disk_run d [] = Inr d"
| "disk_run d (x # xs) = (case disk_step d x of Inl e \<Rightarrow> Inl e | Inr d' \<Rightarrow> disk_run d' xs)"

text \<open>Successive reads of the data register: the bytes returned, and the state after.\<close>

fun data_reads :: "disk_t \<Rightarrow> nat \<Rightarrow> fault + (byte list \<times> disk_t)" where
  "data_reads d 0 = Inr ([], d)"
| "data_reads d (Suc n) =
     (case io_handler_wd2797_data d 0 MEM_READ of
        Inl e \<Rightarrow> Inl e
      | Inr (d1, v) \<Rightarrow>
         (case data_reads d1 n of
            Inl e \<Rightarrow> Inl e
          | Inr (vs, d2) \<Rightarrow> Inr (v # vs, d2)))"

section \<open>Cassette tape trap (tape.c)\<close>

text \<open>
  The bus and the CPU are other modules: \<open>mem_read\<close> is the bus read (\<^verbatim>\<open>mem_read()\<close>,
  an \<^verbatim>\<open>int\<close> for an \<^verbatim>\<open>int\<close> address) and \<open>pc\<close>, \<open>s\<close> are the program counter and the
  hardware stack pointer that \<^verbatim>\<open>cpu_get_state()\<close> reports at the invocation. The bus is
  read as a function of the address: the stack lives in RAM.
\<close>

type_synonym bus = "int \<Rightarrow> int"

definition CAS_STREAM_SIZE :: int where "CAS_STREAM_SIZE = 64 * 1024"

datatype cas_tape_state_t =
    CAS_STREAM_IDLE
  | CAS_STREAM_LEADER
  | CAS_STREAM_SYNC
  | CAS_STREAM_HEADER
  | CAS_STREAM_DATA
  | CAS_STREAM_EOF
  | CAS_STREAM_WRITE

text \<open>
  The statics of \<^verbatim>\<open>io_handler_cas_tape\<close> (\<open>stream_i\<close> is its index \<^verbatim>\<open>i\<close>), the
  \<^verbatim>\<open>byte_count\<close> and \<^verbatim>\<open>char_index\<close> statics of the three block parsers, the capture
  buffer, \<open>tape_writes\<close>: the byte strings handed to \<^verbatim>\<open>loader_tape_fwrite\<close>, in
  call order, and \<open>cas_file\<close>: the loader's static \<^verbatim>\<open>cas_file\<close>, the file those
  calls write to.
\<close>

record tape_t =
  tape_state :: cas_tape_state_t
  count :: int
  file_name :: "byte list"
  stream_i :: int
  header_byte_count :: int
  header_char_index :: int
  data_byte_count :: int
  eof_byte_count :: int
  cas_stream_buffer :: "byte list"
  tape_writes :: "byte list list"
  cas_file :: file_param_t

text \<open>
  The statics have their initialisers and \<^verbatim>\<open>tape_init()\<close> clears the buffer. The CAS
  file belongs to the loader: \<open>f\<close> is what the loader holds when the trap starts.
\<close>

definition tape_init :: "file_param_t \<Rightarrow> tape_t" where
  "tape_init f =
     \<lparr>tape_state = CAS_STREAM_IDLE, count = 0, file_name = replicate 9 0, stream_i = 0,
      header_byte_count = -1, header_char_index = 0, data_byte_count = -1,
      eof_byte_count = -1,
      cas_stream_buffer = replicate (nat CAS_STREAM_SIZE) 0, tape_writes = [],
      cas_file = f\<rparr>"

text \<open>
  \<^verbatim>\<open>loader_init()\<close> zeroes \<^verbatim>\<open>cas_file\<close>, and \<^verbatim>\<open>fat32_fclose()\<close> resets it to the
  same: no file is open. That is the file at power-on, until the loader mounts a CAS file
  (\<^verbatim>\<open>loader()\<close>, the \<^verbatim>\<open>FILE_CAS\<close> branch: \<^verbatim>\<open>fat32_fclose\<close>, then \<^verbatim>\<open>fat32_fopen\<close>
  of the chosen file, which leaves it open at position 0).
\<close>

definition closed_file :: file_param_t where
  "closed_file =
     \<lparr>file_is_open = False, file_bytes = [], current_position = 0, eof_flag = False\<rparr>"

definition loader_tape_fwrite :: "file_param_t \<Rightarrow> byte list \<Rightarrow> file_param_t" where
  "loader_tape_fwrite f buf = fat32_fwrite f buf"

text \<open>\<^verbatim>\<open>isalnum\<close> of the C locale on an unsigned byte.\<close>

definition isalnum :: "byte \<Rightarrow> bool" where
  "isalnum c = ((0x30 \<le> c \<and> c \<le> 0x39) \<or> (0x41 \<le> c \<and> c \<le> 0x5A) \<or> (0x61 \<le> c \<and> c \<le> 0x7A))"

definition cas_stream_header :: "tape_t \<Rightarrow> byte \<Rightarrow> cas_tape_state_t \<times> tape_t" where
  "cas_stream_header t data_byte =
     (if header_byte_count t < 0 then
        (CAS_STREAM_HEADER, t\<lparr>header_byte_count := uint data_byte, header_char_index := 0\<rparr>)
      else
        (let t1 = t\<lparr>header_byte_count := header_byte_count t - 1\<rparr>
         in if header_byte_count t1 < 0 then (CAS_STREAM_LEADER, t1)
            else if header_char_index t1 \<ge> 0 \<and> header_char_index t1 \<le> 7 \<and> isalnum data_byte
            then (CAS_STREAM_HEADER,
                  t1\<lparr>file_name := (file_name t1)
                         [nat (header_char_index t1) := data_byte,
                          nat (header_char_index t1 + 1) := 0],
                      header_char_index := header_char_index t1 + 1\<rparr>)
            else (CAS_STREAM_HEADER, t1)))"

definition cas_stream_data :: "tape_t \<Rightarrow> byte \<Rightarrow> cas_tape_state_t \<times> tape_t" where
  "cas_stream_data t data_byte =
     (if data_byte_count t < 0 then
        (CAS_STREAM_DATA, t\<lparr>data_byte_count := uint data_byte\<rparr>)
      else
        (let t1 = t\<lparr>data_byte_count := data_byte_count t - 1\<rparr>
         in if data_byte_count t1 < 0 then (CAS_STREAM_LEADER, t1)
            else (CAS_STREAM_DATA, t1)))"

definition cas_stream_eof :: "tape_t \<Rightarrow> byte \<Rightarrow> cas_tape_state_t \<times> tape_t" where
  "cas_stream_eof t data_byte =
     (if eof_byte_count t < 0 then
        (CAS_STREAM_EOF, t\<lparr>eof_byte_count := uint data_byte\<rparr>)
      else
        (let t1 = t\<lparr>eof_byte_count := eof_byte_count t - 1\<rparr>
         in if eof_byte_count t1 < 0 then (CAS_STREAM_WRITE, t1)
            else (CAS_STREAM_EOF, t1)))"

text \<open>
  The \<^verbatim>\<open>switch\<close> on the stream state: the next state, the parser statics, and whether
  the stream is complete (\<^verbatim>\<open>cas_file_stream_complete\<close>).
\<close>

definition tape_switch :: "tape_t \<Rightarrow> byte \<Rightarrow> tape_t \<times> bool" where
  "tape_switch t data_byte =
     (case tape_state t of
        CAS_STREAM_IDLE \<Rightarrow>
          (if data_byte = 0x55 then (t\<lparr>tape_state := CAS_STREAM_LEADER\<rparr>, False)
           else (t, False))
      | CAS_STREAM_LEADER \<Rightarrow>
          (if data_byte = 0x55 then (t\<lparr>tape_state := CAS_STREAM_LEADER\<rparr>, False)
           else if data_byte = 0x3C then (t\<lparr>tape_state := CAS_STREAM_SYNC\<rparr>, False)
           else (t\<lparr>tape_state := CAS_STREAM_IDLE\<rparr>, False))
      | CAS_STREAM_SYNC \<Rightarrow>
          (if data_byte = 0x00 then (t\<lparr>tape_state := CAS_STREAM_HEADER\<rparr>, False)
           else if data_byte = 0x01 then (t\<lparr>tape_state := CAS_STREAM_DATA\<rparr>, False)
           else if data_byte = 0xFF then (t\<lparr>tape_state := CAS_STREAM_EOF\<rparr>, False)
           else (t\<lparr>tape_state := CAS_STREAM_IDLE\<rparr>, False))
      | CAS_STREAM_HEADER \<Rightarrow>
          (let (r, t1) = cas_stream_header t data_byte in (t1\<lparr>tape_state := r\<rparr>, False))
      | CAS_STREAM_DATA \<Rightarrow>
          (let (r, t1) = cas_stream_data t data_byte in (t1\<lparr>tape_state := r\<rparr>, False))
      | CAS_STREAM_EOF \<Rightarrow>
          (let (r, t1) = cas_stream_eof t data_byte in (t1\<lparr>tape_state := r\<rparr>, False))
      | CAS_STREAM_WRITE \<Rightarrow> (t\<lparr>tape_state := CAS_STREAM_IDLE\<rparr>, True))"

text \<open>
  The body of \<^verbatim>\<open>if ( count == 16 )\<close> after the byte has been fetched: store it, step
  the index with its clamp, run the switch, and flush when the stream is complete: the
  first \<^verbatim>\<open>i\<close> bytes of the buffer go to \<^verbatim>\<open>loader_tape_fwrite\<close>, then the index and
  the buffer are cleared, whatever the write did.
\<close>

definition capture_byte :: "tape_t \<Rightarrow> byte \<Rightarrow> fault + tape_t" where
  "capture_byte t data_byte =
     (case buffer_set (cas_stream_buffer t) (stream_i t) data_byte of
        Inl e \<Rightarrow> Inl e
      | Inr b \<Rightarrow>
         (let t1 = t\<lparr>cas_stream_buffer := b, stream_i := stream_i t + 1\<rparr>;
              t2 = (if stream_i t1 = CAS_STREAM_SIZE
                    then t1\<lparr>stream_i := CAS_STREAM_SIZE - 1\<rparr> else t1);
              (t3, cas_file_stream_complete) = tape_switch t2 data_byte
          in if cas_file_stream_complete
             then Inr (t3\<lparr>tape_writes :=
                             tape_writes t3 @ [take (nat (stream_i t3)) (cas_stream_buffer t3)],
                           cas_file :=
                             loader_tape_fwrite (cas_file t3)
                               (take (nat (stream_i t3)) (cas_stream_buffer t3)),
                           stream_i := 0,
                           cas_stream_buffer := replicate (nat CAS_STREAM_SIZE) 0\<rparr>)
             else Inr t3))"

definition io_handler_cas_tape ::
  "bus \<Rightarrow> 16 word \<Rightarrow> 16 word \<Rightarrow> tape_t \<Rightarrow> byte \<Rightarrow> mem_operation_t \<Rightarrow> fault + (tape_t \<times> byte)"
  where
  "io_handler_cas_tape mem_read pc s t data op =
     (let t1 = (if pc = 0xBE1C \<or> pc = 0xBE3F then t\<lparr>count := count t + 1\<rparr> else t)
      in if count t1 = 16 then
           (case capture_byte (t1\<lparr>count := 0\<rparr>) (word_of_int (mem_read (uint s))) of
              Inl e \<Rightarrow> Inl e
            | Inr t2 \<Rightarrow> Inr (t2, data))
         else Inr (t1, data))"

subsection \<open>Sequences of invocations and of captured bytes\<close>

text \<open>
  One invocation of the handler is the bus at that moment, the CPU's \<open>pc\<close> and \<open>s\<close>, and
  the handler's own arguments.
\<close>

record invocation =
  inv_bus :: bus
  inv_pc :: "16 word"
  inv_s :: "16 word"
  inv_data :: byte
  inv_op :: mem_operation_t

fun tape_run :: "tape_t \<Rightarrow> invocation list \<Rightarrow> fault + tape_t" where
  "tape_run t [] = Inr t"
| "tape_run t (v # vs) =
     (case io_handler_cas_tape (inv_bus v) (inv_pc v) (inv_s v) t (inv_data v) (inv_op v) of
        Inl e \<Rightarrow> Inl e
      | Inr (t1, r) \<Rightarrow> tape_run t1 vs)"

fun capture_bytes :: "tape_t \<Rightarrow> byte list \<Rightarrow> fault + tape_t" where
  "capture_bytes t [] = Inr t"
| "capture_bytes t (b # bs) =
     (case capture_byte t b of Inl e \<Rightarrow> Inl e | Inr t1 \<Rightarrow> capture_bytes t1 bs)"

text \<open>An invocation is counted when the CPU is at one of the two ROM addresses.\<close>

definition counted :: "invocation \<Rightarrow> bool" where
  "counted v = (inv_pc v = 0xBE1C \<or> inv_pc v = 0xBE3F)"

definition stack_byte :: "invocation \<Rightarrow> byte" where
  "stack_byte v = word_of_int (inv_bus v (uint (inv_s v)))"

text \<open>
  The bytes fetched by a run that starts with the counter at \<open>c\<close>: the stack byte of
  every invocation that brings the counter to 16.
\<close>

fun fetched :: "int \<Rightarrow> invocation list \<Rightarrow> byte list" where
  "fetched c [] = []"
| "fetched c (v # vs) =
     (let c1 = (if counted v then c + 1 else c)
      in if c1 = 16 then stack_byte v # fetched 0 vs else fetched c1 vs)"

fun final_count :: "int \<Rightarrow> invocation list \<Rightarrow> int" where
  "final_count c [] = c"
| "final_count c (v # vs) =
     (let c1 = (if counted v then c + 1 else c)
      in if c1 = 16 then final_count 0 vs else final_count c1 vs)"

text \<open>A result with the invocation counter set to \<open>k\<close>.\<close>

definition with_count :: "int \<Rightarrow> fault + tape_t \<Rightarrow> fault + tape_t" where
  "with_count k r = (case r of Inl e \<Rightarrow> Inl e | Inr t \<Rightarrow> Inr (t\<lparr>count := k\<rparr>))"

text \<open>The tape stream as the ROM writes it: blocks, each behind a leader and a sync byte.\<close>

definition cas_block :: "byte \<Rightarrow> byte list \<Rightarrow> byte \<Rightarrow> byte list" where
  "cas_block ty payload cksum = [ty, of_nat (length payload)] @ payload @ [cksum]"

definition framed :: "nat \<Rightarrow> byte list \<Rightarrow> byte list" where
  "framed n blk = replicate n 0x55 @ [0x3C] @ blk"

fun data_blocks :: "(nat \<times> byte list \<times> byte) list \<Rightarrow> byte list" where
  "data_blocks [] = []"
| "data_blocks ((n, payload, cksum) # ds) =
     framed n (cas_block 0x01 payload cksum) @ data_blocks ds"

definition cas_stream ::
  "nat \<Rightarrow> byte list \<Rightarrow> byte \<Rightarrow> (nat \<times> byte list \<times> byte) list \<Rightarrow> nat \<Rightarrow> byte \<Rightarrow> byte list"
  where
  "cas_stream n hdr hck ds m eck =
     framed n (cas_block 0x00 hdr hck) @ data_blocks ds @ framed m (cas_block 0xFF [] eck)"

section \<open>MC6847 video display generator (vdg.c)\<close>

definition SCREEN_WIDTH_PIX :: nat where "SCREEN_WIDTH_PIX = 256"
definition SCREEN_HEIGHT_PIX :: nat where "SCREEN_HEIGHT_PIX = 192"
definition SCREEN_WIDTH_CHAR :: nat where "SCREEN_WIDTH_CHAR = 32"
definition SCREEN_HEIGHT_CHAR :: nat where "SCREEN_HEIGHT_CHAR = 16"

definition FB_BLACK :: byte where "FB_BLACK = 0"
definition FB_GREEN :: byte where "FB_GREEN = 2"
definition FB_CYAN :: byte where "FB_CYAN = 3"
definition FB_RED :: byte where "FB_RED = 4"
definition FB_BROWN :: byte where "FB_BROWN = 6"
definition FB_LIGHT_BLUE :: byte where "FB_LIGHT_BLUE = 9"
definition FB_LIGHT_GREEN :: byte where "FB_LIGHT_GREEN = 10"
definition FB_LIGHT_RED :: byte where "FB_LIGHT_RED = 12"
definition FB_LIGHT_MAGENTA :: byte where "FB_LIGHT_MAGENTA = 13"
definition FB_YELLOW :: byte where "FB_YELLOW = 14"
definition FB_WHITE :: byte where "FB_WHITE = 15"

definition CHAR_SEMI_GRAPHICS :: byte where "CHAR_SEMI_GRAPHICS = 0x80"
definition CHAR_INVERSE :: byte where "CHAR_INVERSE = 0x40"
definition SEMI_GRAPH4_MASK :: byte where "SEMI_GRAPH4_MASK = 0x0F"
definition SEMI_GRAPH6_MASK :: byte where "SEMI_GRAPH6_MASK = 0x3F"
definition SEMIG8_SEG_HEIGHT :: nat where "SEMIG8_SEG_HEIGHT = 4"
definition SEMIG12_SEG_HEIGHT :: nat where "SEMIG12_SEG_HEIGHT = 6"
definition SEMIG24_SEG_HEIGHT :: nat where "SEMIG24_SEG_HEIGHT = 12"
definition PIA_COLOR_SET :: byte where "PIA_COLOR_SET = 0x01"
definition DEF_COLOR_CSS_0 :: nat where "DEF_COLOR_CSS_0 = 0"
definition DEF_COLOR_CSS_1 :: nat where "DEF_COLOR_CSS_1 = 4"

text \<open>
  Modelled from the spec: the macros \<^verbatim>\<open>FONT_WIDTH\<close> and \<^verbatim>\<open>FONT_HEIGHT\<close> of
  \<^verbatim>\<open>dragon/font.h\<close>, which is not among the sources; the spec gives an 8 by 12 cell
  (``FONT_WIDTH=8, FONT_HEIGHT=12'').
\<close>

definition FONT_WIDTH :: nat where "FONT_WIDTH = 8"
definition FONT_HEIGHT :: nat where "FONT_HEIGHT = 12"

text \<open>
  The bit-pattern tables \<^verbatim>\<open>font_img5x7\<close>, \<^verbatim>\<open>semi_graph_4\<close> and \<^verbatim>\<open>semi_graph_6\<close> of
  \<^verbatim>\<open>dragon/font.h\<close> and \<^verbatim>\<open>dragon/semigraph.h\<close> are parameters: a pattern byte for a
  character index and a font row.
\<close>

record fonts =
  font_img5x7 :: "nat \<Rightarrow> nat \<Rightarrow> byte"
  semi_graph_4 :: "nat \<Rightarrow> nat \<Rightarrow> byte"
  semi_graph_6 :: "nat \<Rightarrow> nat \<Rightarrow> byte"

datatype video_mode_t =
    ALPHA_INTERNAL
  | ALPHA_EXTERNAL
  | SEMI_GRAPHICS_4
  | SEMI_GRAPHICS_6
  | SEMI_GRAPHICS_8
  | SEMI_GRAPHICS_12
  | SEMI_GRAPHICS_24
  | GRAPHICS_1C
  | GRAPHICS_1R
  | GRAPHICS_2C
  | GRAPHICS_2R
  | GRAPHICS_3C
  | GRAPHICS_3R
  | GRAPHICS_6C
  | GRAPHICS_6R
  | DMA
  | UNDEFINED

text \<open>
  The rows of \<^verbatim>\<open>resolution[][3]\<close> as (pixel repeat, row repeat, memory bytes); the
  table has no row for \<open>UNDEFINED\<close>.
\<close>

fun resolution :: "video_mode_t \<Rightarrow> (nat \<times> nat \<times> nat) option" where
  "resolution ALPHA_INTERNAL = Some (1, 1, 512)"
| "resolution ALPHA_EXTERNAL = Some (1, 1, 512)"
| "resolution SEMI_GRAPHICS_4 = Some (1, 1, 512)"
| "resolution SEMI_GRAPHICS_6 = Some (1, 1, 512)"
| "resolution SEMI_GRAPHICS_8 = Some (1, 1, 2048)"
| "resolution SEMI_GRAPHICS_12 = Some (1, 1, 3072)"
| "resolution SEMI_GRAPHICS_24 = Some (1, 1, 6144)"
| "resolution GRAPHICS_1C = Some (4, 3, 1024)"
| "resolution GRAPHICS_1R = Some (2, 3, 1024)"
| "resolution GRAPHICS_2C = Some (2, 3, 2048)"
| "resolution GRAPHICS_2R = Some (2, 2, 1536)"
| "resolution GRAPHICS_3C = Some (2, 2, 3072)"
| "resolution GRAPHICS_3R = Some (2, 1, 3072)"
| "resolution GRAPHICS_6C = Some (2, 1, 6144)"
| "resolution GRAPHICS_6R = Some (1, 1, 6144)"
| "resolution DMA = Some (1, 1, 6144)"
| "resolution UNDEFINED = None"

text \<open>
  \<^verbatim>\<open>colors[]\<close>; the first and the fourth entry depend on \<^verbatim>\<open>RPI_BARE_METAL\<close>. Every
  index the renderers use is masked to 0..7.
\<close>

definition colors :: "bool \<Rightarrow> byte list" where
  "colors bare_metal =
     [if bare_metal then FB_LIGHT_GREEN else FB_GREEN,
      FB_YELLOW,
      FB_LIGHT_BLUE,
      if bare_metal then FB_LIGHT_RED else FB_RED,
      FB_WHITE,
      FB_CYAN,
      FB_LIGHT_MAGENTA,
      FB_BROWN]"

record vdg_t =
  video_ram_offset :: byte
  sam_video_mode :: int
  pia_video_mode :: byte
  current_mode :: video_mode_t
  prev_mode :: video_mode_t
  fb :: "byte list"
  pixel_row :: "byte list"

definition vdg_get_mode :: "int \<Rightarrow> byte \<Rightarrow> fault + video_mode_t" where
  "vdg_get_mode sam pia =
     (if sam = 7 then Inr DMA
      else if pia AND 0x10 \<noteq> 0 then
        (let gm = pia AND 0x0E in
         if gm = 0x00 then Inr GRAPHICS_1C
         else if gm = 0x02 then Inr GRAPHICS_1R
         else if gm = 0x04 then Inr GRAPHICS_2C
         else if gm = 0x06 then Inr GRAPHICS_2R
         else if gm = 0x08 then Inr GRAPHICS_3C
         else if gm = 0x0A then Inr GRAPHICS_3R
         else if gm = 0x0C then Inr GRAPHICS_6C
         else if gm = 0x0E then Inr GRAPHICS_6R
         else Inr UNDEFINED)
      else if pia AND 0x10 = 0 then
        (if sam = 0 \<and> pia AND 0x02 = 0 then Inr ALPHA_INTERNAL
         else if sam = 0 \<and> pia AND 0x02 \<noteq> 0 then Inr SEMI_GRAPHICS_6
         else if sam = 2 \<and> pia AND 0x02 = 0 then Inr SEMI_GRAPHICS_8
         else if sam = 4 \<and> pia AND 0x02 = 0 then Inr SEMI_GRAPHICS_12
         else if sam = 4 \<and> pia AND 0x02 = 0 then Inr SEMI_GRAPHICS_24
         else Inr UNDEFINED)
      else Inl HALT)"

subsection \<open>Character-cell renderers\<close>

text \<open>One font row of one cell: eight pixels, most significant pattern bit first.\<close>

definition cell_pixels :: "byte \<Rightarrow> byte \<Rightarrow> byte \<Rightarrow> byte list" where
  "cell_pixels bit_pattern fg_color bg_color =
     map (\<lambda>font_col. if bit_pattern AND drop_bit font_col 0x80 \<noteq> 0
                      then fg_color else bg_color) [0..<FONT_WIDTH]"

definition css_color :: "bool \<Rightarrow> byte \<Rightarrow> byte" where
  "css_color bare_metal pia =
     (if pia AND PIA_COLOR_SET \<noteq> 0 then colors bare_metal ! DEF_COLOR_CSS_1
      else colors bare_metal ! DEF_COLOR_CSS_0)"

text \<open>
  The cell body shared, statement for statement, by \<^verbatim>\<open>vdg_render_alpha_semi4\<close> and
  \<^verbatim>\<open>vdg_render_semi_ext\<close>; \<open>c\<close> is what the bus returned.
\<close>

definition alpha_semi4_cell :: "fonts \<Rightarrow> bool \<Rightarrow> byte \<Rightarrow> int \<Rightarrow> nat \<Rightarrow> byte list" where
  "alpha_semi4_cell ft bare_metal color_set c font_row =
     (let cb = (word_of_int c :: byte) in
      if cb AND CHAR_SEMI_GRAPHICS \<noteq> 0 then
        cell_pixels (semi_graph_4 ft (unat (cb AND SEMI_GRAPH4_MASK)) font_row)
          (colors bare_metal ! unat (drop_bit 4 (cb AND 0x70))) FB_BLACK
      else
        (let (fg_color, bg_color) =
               (if cb AND CHAR_INVERSE \<noteq> 0 then (FB_BLACK, color_set)
                else (color_set, FB_BLACK))
         in cell_pixels
              (font_img5x7 ft (unat (cb AND NOT (CHAR_SEMI_GRAPHICS OR CHAR_INVERSE))) font_row)
              fg_color bg_color))"

definition vdg_render_alpha_semi4 :: "fonts \<Rightarrow> bool \<Rightarrow> bus \<Rightarrow> byte \<Rightarrow> int \<Rightarrow> byte list" where
  "vdg_render_alpha_semi4 ft bare_metal mem_read pia vdg_mem_base =
     concat (map (\<lambda>row.
       concat (map (\<lambda>font_row.
         concat (map (\<lambda>col.
           alpha_semi4_cell ft bare_metal (css_color bare_metal pia)
             (mem_read (int col + (int row * int SCREEN_WIDTH_CHAR + vdg_mem_base))) font_row)
           [0..<SCREEN_WIDTH_CHAR]))
         [0..<FONT_HEIGHT]))
       [0..<SCREEN_HEIGHT_CHAR])"

definition semi6_cell :: "fonts \<Rightarrow> bool \<Rightarrow> int \<Rightarrow> int \<Rightarrow> nat \<Rightarrow> byte list" where
  "semi6_cell ft bare_metal color_set c font_row =
     cell_pixels (semi_graph_6 ft (unat ((word_of_int c :: byte) AND SEMI_GRAPH6_MASK)) font_row)
       (colors bare_metal ! nat (drop_bit 6 (c AND 0xC0) + color_set)) FB_BLACK"

definition vdg_render_semi6 :: "fonts \<Rightarrow> bool \<Rightarrow> bus \<Rightarrow> byte \<Rightarrow> int \<Rightarrow> byte list" where
  "vdg_render_semi6 ft bare_metal mem_read pia vdg_mem_base =
     concat (map (\<lambda>row.
       concat (map (\<lambda>font_row.
         concat (map (\<lambda>col.
           semi6_cell ft bare_metal (4 * uint (pia AND PIA_COLOR_SET))
             (mem_read (int col + (int row * int SCREEN_WIDTH_CHAR + vdg_mem_base))) font_row)
           [0..<SCREEN_WIDTH_CHAR]))
         [0..<FONT_HEIGHT]))
       [0..<SCREEN_HEIGHT_CHAR])"

text \<open>
  \<^verbatim>\<open>vdg_render_semi_ext\<close>: the scan lines in loop order, each with its row address; the
  font row runs on from line to line and wraps at \<open>FONT_HEIGHT\<close>.
\<close>

fun semi_ext_lines :: "fonts \<Rightarrow> bool \<Rightarrow> bus \<Rightarrow> byte \<Rightarrow> int list \<Rightarrow> nat \<Rightarrow> byte list" where
  "semi_ext_lines ft bare_metal mem_read pia [] font_row = []"
| "semi_ext_lines ft bare_metal mem_read pia (row_address # ls) font_row =
     concat (map (\<lambda>col.
        alpha_semi4_cell ft bare_metal (css_color bare_metal pia)
          (mem_read (int col + row_address)) font_row) [0..<SCREEN_WIDTH_CHAR])
     @ semi_ext_lines ft bare_metal mem_read pia ls
         (if font_row + 1 = FONT_HEIGHT then 0 else font_row + 1)"

definition semi_ext_addresses :: "nat \<Rightarrow> nat \<Rightarrow> int \<Rightarrow> int list" where
  "semi_ext_addresses segments seg_scan_lines vdg_mem_base =
     concat (map (\<lambda>row.
       concat (map (\<lambda>seg_row.
         map (\<lambda>scan_line.
           (int row * int segments + int seg_row) * int SCREEN_WIDTH_CHAR + vdg_mem_base)
           [0..<seg_scan_lines])
         [0..<segments]))
       [0..<SCREEN_HEIGHT_CHAR])"

definition vdg_render_semi_ext ::
  "fonts \<Rightarrow> bool \<Rightarrow> bus \<Rightarrow> byte \<Rightarrow> video_mode_t \<Rightarrow> int \<Rightarrow> byte list" where
  "vdg_render_semi_ext ft bare_metal mem_read pia mode vdg_mem_base =
     (if mode = SEMI_GRAPHICS_8 then
        semi_ext_lines ft bare_metal mem_read pia
          (semi_ext_addresses SEMIG8_SEG_HEIGHT (FONT_HEIGHT div SEMIG8_SEG_HEIGHT) vdg_mem_base) 0
      else if mode = SEMI_GRAPHICS_12 then
        semi_ext_lines ft bare_metal mem_read pia
          (semi_ext_addresses SEMIG12_SEG_HEIGHT (FONT_HEIGHT div SEMIG12_SEG_HEIGHT) vdg_mem_base) 0
      else if mode = SEMI_GRAPHICS_24 then
        semi_ext_lines ft bare_metal mem_read pia
          (semi_ext_addresses SEMIG24_SEG_HEIGHT (FONT_HEIGHT div SEMIG24_SEG_HEIGHT) vdg_mem_base) 0
      else [])"

subsection \<open>Graphics renderers\<close>

text \<open>
  Both graphics renderers fill the static \<^verbatim>\<open>pixel_row[256]\<close> through
  \<^verbatim>\<open>pixel_row[buffer_index++] = pixel\<close> and copy it to the frame buffer \<open>row_rep\<close> times
  whenever \<^verbatim>\<open>buf_index\<close> has reached the screen width. \<open>store_pixels\<close> is that
  sequence of stores for the pixels of one video byte, each store checked against the
  array.
\<close>

definition pixel_row_set :: "byte list \<Rightarrow> nat \<Rightarrow> byte \<Rightarrow> fault + byte list" where
  "pixel_row_set row i v = (if i < length row then Inr (row[i := v]) else Inl ARRAY_BOUNDS)"

fun store_pixels :: "byte list \<Rightarrow> nat \<Rightarrow> byte list \<Rightarrow> fault + (byte list \<times> nat)" where
  "store_pixels row buf_index [] = Inr (row, buf_index)"
| "store_pixels row buf_index (pixel # ps) =
     (case pixel_row_set row buf_index pixel of
        Inl e \<Rightarrow> Inl e
      | Inr row1 \<Rightarrow> store_pixels row1 (buf_index + 1) ps)"

text \<open>
  The loop over the video memory offsets: the pixel row, the index into it and the bytes
  written to the frame buffer so far; \<open>px\<close> gives the pixels of the byte at an offset.
\<close>

fun graph_loop ::
  "(nat \<Rightarrow> byte list) \<Rightarrow> nat \<Rightarrow> nat list \<Rightarrow> byte list \<Rightarrow> nat \<Rightarrow> byte list
     \<Rightarrow> fault + (byte list \<times> byte list)" where
  "graph_loop px row_rep [] row buf_index out = Inr (row, out)"
| "graph_loop px row_rep (vdg_mem_offset # offs) row buf_index out =
     (case store_pixels row buf_index (px vdg_mem_offset) of
        Inl e \<Rightarrow> Inl e
      | Inr (row1, buf_index1) \<Rightarrow>
          if buf_index1 \<ge> SCREEN_WIDTH_PIX
          then graph_loop px row_rep offs row1 0
                 (out @ concat (replicate row_rep (take SCREEN_WIDTH_PIX row1)))
          else graph_loop px row_rep offs row1 buf_index1 out)"

definition resl_pixels :: "video_mode_t \<Rightarrow> byte \<Rightarrow> byte \<Rightarrow> byte list" where
  "resl_pixels mode fg_color pixels_byte =
     concat (map (\<lambda>element.
        let pixel = (if drop_bit element pixels_byte AND 0x01 \<noteq> 0 then fg_color else FB_BLACK)
        in if mode \<noteq> GRAPHICS_6R then [pixel, pixel] else [pixel])
       [7, 6, 5, 4, 3, 2, 1, 0])"

definition vdg_render_resl_graph ::
  "bool \<Rightarrow> bus \<Rightarrow> byte \<Rightarrow> byte list \<Rightarrow> video_mode_t \<Rightarrow> int \<Rightarrow> fault + (byte list \<times> byte list)"
  where
  "vdg_render_resl_graph bare_metal mem_read pia row mode vdg_mem_base =
     (case resolution mode of
        None \<Rightarrow> Inl ARRAY_BOUNDS
      | Some (pixel_rep, row_rep, video_mem) \<Rightarrow>
          graph_loop
            (\<lambda>vdg_mem_offset. resl_pixels mode (css_color bare_metal pia)
                (word_of_int (mem_read (int vdg_mem_offset + vdg_mem_base))))
            row_rep [0..<video_mem] row 0 [])"

definition color_pixels :: "bool \<Rightarrow> video_mode_t \<Rightarrow> int \<Rightarrow> byte \<Rightarrow> byte list" where
  "color_pixels bare_metal mode color_set pixels_byte =
     concat (map (\<lambda>element.
        let color = uint (drop_bit element pixels_byte AND 0x03) + color_set;
            pixel = colors bare_metal ! nat color
        in if mode = GRAPHICS_1C then [pixel, pixel, pixel, pixel] else [pixel, pixel])
       [6, 4, 2, 0])"

definition vdg_render_color_graph ::
  "bool \<Rightarrow> bus \<Rightarrow> byte \<Rightarrow> byte list \<Rightarrow> video_mode_t \<Rightarrow> int \<Rightarrow> fault + (byte list \<times> byte list)"
  where
  "vdg_render_color_graph bare_metal mem_read pia row mode vdg_mem_base =
     (case resolution mode of
        None \<Rightarrow> Inl ARRAY_BOUNDS
      | Some (pixel_rep, row_rep, video_mem) \<Rightarrow>
          graph_loop
            (\<lambda>vdg_mem_offset. color_pixels bare_metal mode (4 * uint (pia AND PIA_COLOR_SET))
                (word_of_int (mem_read (int vdg_mem_offset + vdg_mem_base))))
            row_rep [0..<video_mem] row 0 [])"

subsection \<open>vdg\_render\<close>

text \<open>
  The bytes a render writes through \<^verbatim>\<open>*screen_buffer++\<close>, starting at the frame buffer's
  first byte, with the pixel row it leaves behind. \<open>DMA\<close> and \<open>UNDEFINED\<close> halt.
\<close>

definition render_pixels ::
  "fonts \<Rightarrow> bool \<Rightarrow> bus \<Rightarrow> byte \<Rightarrow> byte list \<Rightarrow> video_mode_t \<Rightarrow> int
     \<Rightarrow> fault + (byte list \<times> byte list)" where
  "render_pixels ft bare_metal mem_read pia row mode vdg_mem_base =
     (if mode = ALPHA_INTERNAL \<or> mode = SEMI_GRAPHICS_4 then
        Inr (row, vdg_render_alpha_semi4 ft bare_metal mem_read pia vdg_mem_base)
      else if mode = SEMI_GRAPHICS_6 \<or> mode = ALPHA_EXTERNAL then
        Inr (row, vdg_render_semi6 ft bare_metal mem_read pia vdg_mem_base)
      else if mode = GRAPHICS_1C \<or> mode = GRAPHICS_2C \<or> mode = GRAPHICS_3C
              \<or> mode = GRAPHICS_6C then
        vdg_render_color_graph bare_metal mem_read pia row mode vdg_mem_base
      else if mode = GRAPHICS_1R \<or> mode = GRAPHICS_2R \<or> mode = GRAPHICS_3R
              \<or> mode = GRAPHICS_6R then
        vdg_render_resl_graph bare_metal mem_read pia row mode vdg_mem_base
      else if mode = SEMI_GRAPHICS_8 \<or> mode = SEMI_GRAPHICS_12
              \<or> mode = SEMI_GRAPHICS_24 then
        Inr (row, vdg_render_semi_ext ft bare_metal mem_read pia mode vdg_mem_base)
      else Inl HALT)"

text \<open>Writing \<open>n\<close> bytes from the start of the frame buffer; more than it holds overruns it.\<close>

definition fb_store :: "byte list \<Rightarrow> byte list \<Rightarrow> fault + byte list" where
  "fb_store frame written =
     (if length written \<le> length frame then Inr (written @ drop (length written) frame)
      else Inl ARRAY_BOUNDS)"

text \<open>
  \<^verbatim>\<open>vdg_render()\<close>. The debug line indexes \<^verbatim>\<open>mode_name[]\<close>, which has no entry for
  \<open>UNDEFINED\<close>.
\<close>

definition vdg_render :: "fonts \<Rightarrow> bool \<Rightarrow> bus \<Rightarrow> vdg_t \<Rightarrow> fault + vdg_t" where
  "vdg_render ft bare_metal mem_read v =
     (case vdg_get_mode (sam_video_mode v) (pia_video_mode v) of
        Inl e \<Rightarrow> Inl e
      | Inr mode \<Rightarrow>
          if mode \<noteq> prev_mode v \<and> mode = UNDEFINED then Inl ARRAY_BOUNDS
          else
            (let v0 = v\<lparr>current_mode := mode\<rparr>;
                 v1 = (if current_mode v0 \<noteq> prev_mode v0
                       then v0\<lparr>prev_mode := current_mode v0\<rparr> else v0);
                 vdg_mem_base = push_bit 9 (uint (video_ram_offset v1))
             in case render_pixels ft bare_metal mem_read (pia_video_mode v1) (pixel_row v1)
                       mode vdg_mem_base of
                  Inl e \<Rightarrow> Inl e
                | Inr (row, written) \<Rightarrow>
                   (case fb_store (fb v1) written of
                      Inl e \<Rightarrow> Inl e
                    | Inr frame \<Rightarrow> Inr (v1\<lparr>fb := frame, pixel_row := row\<rparr>))))"

text \<open>The bytes one render writes, for stating how many they are.\<close>

definition vdg_render_written :: "fonts \<Rightarrow> bool \<Rightarrow> bus \<Rightarrow> vdg_t \<Rightarrow> fault + byte list" where
  "vdg_render_written ft bare_metal mem_read v =
     (case vdg_get_mode (sam_video_mode v) (pia_video_mode v) of
        Inl e \<Rightarrow> Inl e
      | Inr mode \<Rightarrow>
          map_sum id snd
            (render_pixels ft bare_metal mem_read (pia_video_mode v) (pixel_row v) mode
               (push_bit 9 (uint (video_ram_offset v)))))"

text \<open>\<^verbatim>\<open>vdg_init()\<close> with the frame buffer that \<^verbatim>\<open>rpi_fb_init(256, 192)\<close> hands out.\<close>

definition vdg_init :: vdg_t where
  "vdg_init =
     \<lparr>video_ram_offset = 0x02, sam_video_mode = 0, pia_video_mode = 0,
      current_mode = ALPHA_INTERNAL, prev_mode = UNDEFINED,
      fb = replicate (SCREEN_WIDTH_PIX * SCREEN_HEIGHT_PIX) 0,
      pixel_row = replicate SCREEN_WIDTH_PIX 0\<rparr>"

section \<open>The statements of the specification that are compared with the code\<close>

text \<open>
  The mode matrix of the specification, row by row, as a relation between the SAM mode,
  the PIA mode byte and a mode (bit 4 of the byte is \<^verbatim>\<open>^A/G\<close>, bit 1 is
  \<^verbatim>\<open>GM0/^INT\<close>, bits 3..1 are \<^verbatim>\<open>GM2..GM0\<close>). A row naming two modes admits both.
\<close>

definition spec_graphics_mode :: "byte \<Rightarrow> video_mode_t" where
  "spec_graphics_mode pia =
     [GRAPHICS_1C, GRAPHICS_1R, GRAPHICS_2C, GRAPHICS_2R,
      GRAPHICS_3C, GRAPHICS_3R, GRAPHICS_6C, GRAPHICS_6R] ! unat (drop_bit 1 (pia AND 0x0E))"

definition spec_mode_table :: "int \<Rightarrow> byte \<Rightarrow> video_mode_t \<Rightarrow> bool" where
  "spec_mode_table sam pia m =
     (if sam = 7 then m = DMA
      else if pia AND 0x10 = 0 then
        (if sam = 0 \<and> pia AND 0x02 = 0 then m = ALPHA_INTERNAL \<or> m = SEMI_GRAPHICS_4
         else if sam = 0 then m = ALPHA_EXTERNAL \<or> m = SEMI_GRAPHICS_6
         else if sam = 2 then m = SEMI_GRAPHICS_8
         else if sam = 4 then m = SEMI_GRAPHICS_12 \<or> m = SEMI_GRAPHICS_24
         else False)
      else if 1 \<le> sam \<and> sam \<le> 6 then m = spec_graphics_mode pia
      else False)"

text \<open>
  The text foreground as the specification states it, green for CSS = 0 and orange for
  CSS = 1, read off the colour table in the specification's order
  \<^verbatim>\<open>{green, yellow, blue, red, buff, cyan, magenta, orange}\<close>.
\<close>

definition spec_text_foreground :: "bool \<Rightarrow> byte \<Rightarrow> byte" where
  "spec_text_foreground bare_metal pia =
     (if pia AND PIA_COLOR_SET = 0 then colors bare_metal ! 0 else colors bare_metal ! 7)"

text \<open>
  The sector offset as the specification states it:
  \<^verbatim>\<open>header + ((track*sides)+side)*18*256 + (sector-1)*256\<close>.
\<close>

definition spec_sector_offset :: "nat \<Rightarrow> nat \<Rightarrow> nat \<Rightarrow> nat \<Rightarrow> nat \<Rightarrow> nat" where
  "spec_sector_offset header sides track side sector =
     header + ((track * sides) + side) * 18 * 256 + (sector - 1) * 256"

text \<open>\<^verbatim>\<open>tracks\<close> and \<^verbatim>\<open>sides\<close> are bytes 8 and 9 of the VDK header.\<close>

definition vdk_tracks :: "byte list \<Rightarrow> nat" where
  "vdk_tracks img = unat (img ! 8)"

definition vdk_sides :: "byte list \<Rightarrow> nat" where
  "vdk_sides img = unat (img ! 9)"

text \<open>The READ SECTOR command followed by 256 reads of the data register.\<close>

definition read_sector :: "disk_t \<Rightarrow> fault + (byte list \<times> disk_t)" where
  "read_sector d =
     (case io_handler_wd2797_cmd_stat d WDCmdReadSec MEM_WRITE of
        Inl e \<Rightarrow> Inl e
      | Inr (d1, r) \<Rightarrow> data_reads d1 256)"

section \<open>Invariants\<close>

text \<open>The invariant that the handlers keep: a transfer state has Busy set.\<close>

definition busy_while_active :: "disk_t \<Rightarrow> bool" where
  "busy_while_active d = (state d \<noteq> DISK_IDLE \<longrightarrow> disk_status d AND WDBusy \<noteq> 0)"

text \<open>
  The trap between two captured bytes: the stream state, the byte counts of the three
  block parsers, the bytes \<open>xs\<close> captured since the last flush (they fill the front of
  the buffer, zeros behind them) and the flushes \<open>ws\<close> so far.
\<close>

definition tape_at ::
  "tape_t \<Rightarrow> cas_tape_state_t \<Rightarrow> int \<Rightarrow> int \<Rightarrow> int \<Rightarrow> byte list \<Rightarrow> byte list list \<Rightarrow> bool" where
  "tape_at t st hc dc ec xs ws =
     (tape_state t = st \<and> header_byte_count t = hc \<and> data_byte_count t = dc \<and>
      eof_byte_count t = ec \<and> stream_i t = int (length xs) \<and>
      cas_stream_buffer t = xs @ replicate (nat CAS_STREAM_SIZE - length xs) 0 \<and>
      tape_writes t = ws)"

text \<open>
  The capture index lies within the buffer, the buffer has its declared size, and every
  flushed byte string is shorter than the buffer.
\<close>

definition capture_in_bounds :: "tape_t \<Rightarrow> bool" where
  "capture_in_bounds t =
     (0 \<le> stream_i t \<and> stream_i t < CAS_STREAM_SIZE \<and>
      length (cas_stream_buffer t) = nat CAS_STREAM_SIZE \<and>
      (\<forall>w \<in> set (tape_writes t). length w < nat CAS_STREAM_SIZE))"

text \<open>
  What a graphics loop writes, as a function of the video bytes alone: \<open>pending\<close> is the
  part of the current pixel row filled so far.
\<close>

fun graph_rows :: "(nat \<Rightarrow> byte list) \<Rightarrow> nat \<Rightarrow> nat list \<Rightarrow> byte list \<Rightarrow> byte list" where
  "graph_rows px row_rep [] pending = []"
| "graph_rows px row_rep (vdg_mem_offset # offs) pending =
     (let p = pending @ px vdg_mem_offset
      in if length p \<ge> SCREEN_WIDTH_PIX
         then concat (replicate row_rep (take SCREEN_WIDTH_PIX p)) @ graph_rows px row_rep offs []
         else graph_rows px row_rep offs p)"

section \<open>Concrete states and inputs used in the checked instances\<close>

text \<open>The controller after power-on with no image mounted.\<close>

definition disk_power_on :: disk_t where
  "disk_power_on = disk_init (fat32_fopen []) FILE_NONE"

text \<open>The controller in the middle of a sector read.\<close>

definition busy_reading :: disk_t where
  "busy_reading = disk_power_on\<lparr>state := DISK_READ, disk_status := 0x01\<rparr>"

text \<open>The controller after a READ ADDRESS command on the power-on state.\<close>

definition reading_id :: disk_t where
  "reading_id =
     disk_power_on
       \<lparr>disk_cmd := 0xC0, disk_status := 0x01, state := DISK_READ_ID,
        buffer := (buffer disk_power_on)[0 := 0, 1 := 1, 2 := 1, 3 := 0xFF, 4 := 0xBE, 5 := 0xEF],
        buffer_index := 0\<rparr>"

text \<open>
  Two VDK images with a 12-byte header and two tracks: one single-sided, one two-sided;
  every track-side of 18 sectors is filled with a byte of its own. Each is mounted on a
  controller that has sought track 1.
\<close>

definition one_sided_vdk :: "byte list" where
  "one_sided_vdk =
     [0x64, 0x6B, 0x0C, 0x00, 0x10, 0x10, 0x00, 0x00, 0x02, 0x01, 0x00, 0x00]
     @ replicate 4608 0xB0 @ replicate 4608 0xB1"

definition one_sided_mounted :: disk_t where
  "one_sided_mounted =
     (disk_init (fat32_fopen one_sided_vdk) FILE_VDK)
       \<lparr>disk_track := 1, disk_sector := 2, disk_status := 0\<rparr>"

definition two_sided_vdk :: "byte list" where
  "two_sided_vdk =
     [0x64, 0x6B, 0x0C, 0x00, 0x10, 0x10, 0x00, 0x00, 0x02, 0x02, 0x00, 0x00]
     @ replicate 4608 0xA0 @ replicate 4608 0xA1 @ replicate 4608 0xA2 @ replicate 4608 0xA3"

definition two_sided_mounted :: disk_t where
  "two_sided_mounted =
     (disk_init (fat32_fopen two_sided_vdk) FILE_VDK)\<lparr>disk_track := 1, disk_status := 0\<rparr>"




text \<open>
  An invocation of the trap from the ROM's \<^verbatim>\<open>CasByteOut\<close> (PC 0xBE1C) with 0x55 on top
  of the stack, the same invocation from another PC, and the trap after its first
  captured byte, no CAS file mounted.
\<close>

definition casbyteout :: invocation where
  "casbyteout =
     \<lparr>inv_bus = (\<lambda>a. if a = 0x7F00 then 0x55 else 0), inv_pc = 0xBE1C, inv_s = 0x7F00,
      inv_data = 0x80, inv_op = MEM_WRITE\<rparr>"

definition elsewhere :: invocation where
  "elsewhere = casbyteout\<lparr>inv_pc := 0x8000\<rparr>"

definition captured_leader :: tape_t where
  "captured_leader =
     (tape_init closed_file)
       \<lparr>tape_state := CAS_STREAM_LEADER, stream_i := 1,
        cas_stream_buffer := (cas_stream_buffer (tape_init closed_file))[0 := 0x55]\<rparr>"

text \<open>A bus that returns the same value at every address.\<close>

definition constant_bus :: "int \<Rightarrow> bus" where
  "constant_bus b = (\<lambda>a. b)"

text \<open>Font tables whose every pattern has all eight bits set.\<close>

definition solid_font :: fonts where
  "solid_font = \<lparr>font_img5x7 = (\<lambda>c r. 0xFF), semi_graph_4 = (\<lambda>c r. 0xFF),
                  semi_graph_6 = (\<lambda>c r. 0xFF)\<rparr>"

text \<open>The generator switched to the 256 by 192 two-colour graphics mode.\<close>

definition graphics_6r :: vdg_t where
  "graphics_6r = vdg_init\<lparr>sam_video_mode := 6, pia_video_mode := 0x1E\<rparr>"

section \<open>Properties\<close>

subsection \<open>Disk controller: register frames\<close>

text \<open>
  C8. While the Busy bit of the status register is set, writing a command byte other
  than FORCE INTERRUPT (0xD0) to the command register changes the latched command byte
  and nothing else: state, status, track, sector and data registers, the image file and
  the interrupt counters are those of the state before, and the handler returns 0.
\<close>

theorem busy_command_write_latches_only:
  assumes "disk_status d AND WDBusy \<noteq> 0" and "data \<noteq> WDCmdForceInt"
  shows "io_handler_wd2797_cmd_stat d data MEM_WRITE = Inr (d\<lparr>disk_cmd := data\<rparr>, 0)"
  using assms by (simp add: io_handler_wd2797_cmd_stat_def)

theorem busy_command_write_latches_only_witness:
  "disk_status busy_reading AND WDBusy \<noteq> 0 \<and> (0x88 :: byte) \<noteq> WDCmdForceInt \<and>
   io_handler_wd2797_cmd_stat busy_reading 0x88 MEM_WRITE
     = Inr (busy_reading\<lparr>disk_cmd := 0x88\<rparr>, 0)"
  using busy_command_write_latches_only [of busy_reading "0x88"]
  by (simp add: busy_reading_def WDBusy_def WDCmdForceInt_def)

text \<open>
  C9. A write to the track register or to the sector register takes effect only when the
  whole status register is zero: with a nonzero status (Track0 after RESTORE, say) the
  register keeps its value and the handler returns that value; with a zero status the
  register takes the byte written.
\<close>

theorem track_sector_write_needs_zero_status:
  "(disk_status d \<noteq> 0 \<longrightarrow>
      io_handler_wd2797_track d data MEM_WRITE = (d, disk_track d) \<and>
      io_handler_wd2797_sector d data MEM_WRITE = (d, disk_sector d)) \<and>
   (disk_status d = 0 \<longrightarrow>
      io_handler_wd2797_track d data MEM_WRITE = (d\<lparr>disk_track := data\<rparr>, 0) \<and>
      io_handler_wd2797_sector d data MEM_WRITE = (d\<lparr>disk_sector := data\<rparr>, 0))"
  by (simp add: io_handler_wd2797_track_def io_handler_wd2797_sector_def WDBusy_def)

theorem track_sector_write_needs_zero_status_witness:
  "disk_status disk_power_on \<noteq> 0 \<and>
   io_handler_wd2797_track disk_power_on 7 MEM_WRITE = (disk_power_on, 0) \<and>
   io_handler_wd2797_sector disk_power_on 7 MEM_WRITE = (disk_power_on, 1) \<and>
   disk_status (disk_power_on\<lparr>disk_status := 0\<rparr>) = 0 \<and>
   io_handler_wd2797_track (disk_power_on\<lparr>disk_status := 0\<rparr>) 7 MEM_WRITE
     = (disk_power_on\<lparr>disk_status := 0, disk_track := 7\<rparr>, 0) \<and>
   io_handler_wd2797_sector (disk_power_on\<lparr>disk_status := 0\<rparr>) 7 MEM_WRITE
     = (disk_power_on\<lparr>disk_status := 0, disk_sector := 7\<rparr>, 0)"
  using track_sector_write_needs_zero_status [of disk_power_on 7]
        track_sector_write_needs_zero_status [of "disk_power_on\<lparr>disk_status := 0\<rparr>" 7]
  by (simp add: disk_power_on_def disk_init_def WDTrack0_def)

subsection \<open>Disk controller: Busy while a transfer is open\<close>

lemma busy_test_bit0: "(s AND WDBusy \<noteq> 0) = bit s 0"
  by (simp add: WDBusy_def and_one_eq mod_2_eq_odd bit_0 flip: even_iff_mod_2_eq_zero)

lemma busy_after_drq_clear: "bit (s AND NOT WDDRQ) 0 = bit s 0"
  by (simp add: WDDRQ_def bit_0 even_and_iff)

lemma busy_after_drq_set: "bit (s OR WDDRQ) 0 = bit s 0"
  by (simp add: WDDRQ_def bit_0 even_or_iff)

lemma busy_const: "bit WDBusy 0"
  by (simp add: WDBusy_def)

lemma cmd_seek_address_frame:
  "cmd_seek_address d = (a, d1) \<Longrightarrow> state d1 = state d \<and> disk_status d1 = disk_status d"
  by (auto simp: cmd_seek_address_def read_vdk_header_def Let_def split: if_splits prod.splits)

lemma disk_intrq_frame:
  "state (disk_intrq d) = state d \<and> disk_status (disk_intrq d) = disk_status d"
  by (simp add: disk_intrq_def)

lemma cmd_stat_keeps_busy:
  assumes "busy_while_active d" and "io_handler_wd2797_cmd_stat d data op = Inr (d', r)"
  shows "busy_while_active d'"
  using assms
  unfolding busy_while_active_def busy_test_bit0 io_handler_wd2797_cmd_stat_def
  by (auto simp: Let_def disk_intrq_frame busy_const
      split: mem_operation_t.splits if_splits prod.splits dest: cmd_seek_address_frame)

lemma data_keeps_busy:
  assumes "busy_while_active d" and "io_handler_wd2797_data d data op = Inr (d', r)"
  shows "busy_while_active d'"
  using assms
  unfolding busy_while_active_def busy_test_bit0 io_handler_wd2797_data_def
  by (auto simp: Let_def busy_after_drq_clear
      split: disk_state_t.splits if_splits sum.splits)

lemma tick_keeps_busy:
  assumes "busy_while_active d" and "disk_io_interrupt d t1 t2 t3 = Inr d'"
  shows "busy_while_active d'"
  using assms
  unfolding busy_while_active_def busy_test_bit0 disk_io_interrupt_def
  by (auto simp: Let_def busy_after_drq_set disk_intrq_frame split: if_splits)

lemma drive_ctrl_keeps_busy:
  assumes "busy_while_active d" and "io_handler_drive_ctrl d data op = Inr (d', r)"
  shows "busy_while_active d'"
  using assms
  unfolding busy_while_active_def io_handler_drive_ctrl_def
  by (auto simp: Let_def split: if_splits)

lemma disk_step_keeps_busy:
  assumes "busy_while_active d" and "disk_step d x = Inr d'"
  shows "busy_while_active d'"
proof (cases x)
  case (CmdStat data op)
  with assms show ?thesis
    by (cases "io_handler_wd2797_cmd_stat d data op") (auto dest: cmd_stat_keeps_busy)
next
  case (TrackReg data op)
  with assms show ?thesis
    by (auto simp: busy_while_active_def io_handler_wd2797_track_def split: if_splits)
next
  case (SectorReg data op)
  with assms show ?thesis
    by (auto simp: busy_while_active_def io_handler_wd2797_sector_def split: if_splits)
next
  case (DataReg data op)
  with assms show ?thesis
    by (cases "io_handler_wd2797_data d data op") (auto dest: data_keeps_busy)
next
  case (DriveCtrl data op)
  with assms show ?thesis
    by (cases "io_handler_drive_ctrl d data op") (auto dest: drive_ctrl_keeps_busy)
next
  case (Tick t1 t2 t3)
  with assms show ?thesis by (auto dest: tick_keeps_busy)
next
  case (Mount bytes)
  with assms show ?thesis by (auto simp: busy_while_active_def loader_mount_vdk_def)
qed

lemma disk_run_keeps_busy:
  "busy_while_active d \<Longrightarrow> disk_run d xs = Inr d' \<Longrightarrow> busy_while_active d'"
proof (induction xs arbitrary: d)
  case Nil
  then show ?case by simp
next
  case (Cons x xs)
  then show ?case by (auto split: sum.splits dest: disk_step_keeps_busy)
qed

lemma disk_init_busy: "busy_while_active (disk_init f ty)"
  by (simp add: busy_while_active_def disk_init_def)

text \<open>
  C6. In every state the controller reaches from \<^verbatim>\<open>disk_init()\<close> by command and status
  accesses, track, sector and data register accesses, drive-control writes, interrupt
  ticks and image mounts: when the disk state is not IDLE, the Busy bit (bit 0) of the
  status register is set or the DRQ bit is set.
\<close>

theorem not_idle_busy_or_drq:
  assumes "disk_run (disk_init f ty) ops = Inr d" and "state d \<noteq> DISK_IDLE"
  shows "disk_status d AND WDBusy \<noteq> 0 \<or> disk_status d AND WDDRQ \<noteq> 0"
  using disk_run_keeps_busy [OF disk_init_busy assms(1)] assms(2)
  by (simp add: busy_while_active_def)

theorem not_idle_busy_or_drq_witness:
  "disk_run (disk_init (fat32_fopen []) FILE_NONE) [CmdStat 0xC0 MEM_WRITE] = Inr reading_id \<and>
   state reading_id \<noteq> DISK_IDLE \<and>
   \<not> (disk_status reading_id AND WDBusy = 0 \<and> disk_status reading_id AND WDDRQ = 0)"
proof -
  have run: "disk_run (disk_init (fat32_fopen []) FILE_NONE) [CmdStat 0xC0 MEM_WRITE]
               = Inr reading_id"
    by (simp add: reading_id_def disk_power_on_def disk_init_def
        io_handler_wd2797_cmd_stat_def WDCmdForceInt_def WDBusy_def WDTrack0_def
        WDCmdStepMask_def WDCmdRestore_def WDCmdSeek_def WDCmdReadSec_def
        WDCmdWriteSec_def WDCmdReadAddr_def)
  have active: "state reading_id \<noteq> DISK_IDLE"
    by (simp add: reading_id_def)
  from not_idle_busy_or_drq [OF run active] run active show ?thesis by simp
qed

subsection \<open>Disk controller: READ SECTOR\<close>

lemma seek_address_unat:
  fixes t s :: byte and h :: "16 word"
  assumes "1 \<le> unat s"
  shows "unat (disk_to_image_offset (ucast t) (ucast s) + ucast h)
         = unat h + 256 * (18 * unat t + (unat s - 1))"
proof -
  have t: "unat t < 256" and s: "unat s < 256" and h: "unat h < 65536"
    using unsigned_less [of t, where ?'a = nat] unsigned_less [of s, where ?'a = nat]
      unsigned_less [of h, where ?'a = nat] by simp_all
  have ut: "uint (ucast t :: 16 word) = int (unat t)"
    and us: "uint (ucast s :: 16 word) = int (unat s)"
    by (simp_all add: uint_up_ucast is_up)
  let ?n = "256 * (18 * unat t + (unat s - 1))"
  have n: "256 * (18 * int (unat t) + (int (unat s) - 1)) = int ?n"
    using assms by (simp add: of_nat_diff)
  have off: "disk_to_image_offset (ucast t) (ucast s) = (of_nat ?n :: 32 word)"
    unfolding disk_to_image_offset_def SECTOR_SIZE_def SEC_PER_TRACK_def ut us n
    by (rule of_int_of_nat_eq)
  have hh: "(ucast h :: 32 word) = of_nat (unat h)"
    by simp
  have gen: "unat (of_nat m :: 32 word) = m" if "m < 2 ^ 32" for m :: nat
    using that by (simp add: unat_of_nat)
  have bound: "unat h + ?n < 2 ^ 32"
    using t s h by simp
  have "disk_to_image_offset (ucast t) (ucast s) + ucast h = (of_nat (unat h + ?n) :: 32 word)"
    by (simp only: off hh of_nat_add add.commute)
  then show ?thesis
    by (simp only: gen [OF bound])
qed


lemma busy_cleared: "(x AND NOT WDBusy) AND WDBusy = 0"
  by (simp add: and.assoc)

lemma data_read_step:
  assumes "state d = DISK_READ" and "buffer_index d = int i" and "i < 256"
    and "256 \<le> length (buffer d)"
  shows "io_handler_wd2797_data d x MEM_READ =
           Inr ((if i + 1 = 256
                 then d\<lparr>disk_data := buffer d ! i,
                         disk_status := (disk_status d AND NOT WDDRQ) AND NOT WDBusy,
                         buffer_index := int i + 1, state := DISK_IDLE\<rparr>
                 else d\<lparr>disk_data := buffer d ! i,
                         disk_status := disk_status d AND NOT WDDRQ,
                         buffer_index := int i + 1\<rparr>), buffer d ! i)"
  using assms
  by (auto simp: io_handler_wd2797_data_def buffer_get_def Let_def SECTOR_SIZE_def)

lemma data_reads_stream:
  assumes "state d = DISK_READ" and "buffer_index d = int i" and "i + n \<le> 256"
    and "256 \<le> length (buffer d)"
  shows "\<exists>d'. data_reads d n = Inr (take n (drop i (buffer d)), d') \<and>
              (0 < n \<and> i + n = 256 \<longrightarrow> state d' = DISK_IDLE \<and> disk_status d' AND WDBusy = 0)"
  using assms
proof (induction n arbitrary: d i)
  case 0
  then show ?case by simp
next
  case (Suc n)
  from Suc.prems have i: "i < 256" by simp
  note step = data_read_step [OF Suc.prems(1,2) i Suc.prems(4), of 0]
  have hd: "take (Suc n) (drop i (buffer d)) = buffer d ! i # take n (drop (Suc i) (buffer d))"
    using i Suc.prems(4) by (simp add: take_Suc_conv_app_nth Cons_nth_drop_Suc [symmetric])
  show ?case
  proof (cases "i + 1 = 256")
    case True
    with Suc.prems have "n = 0" by simp
    with True step show ?thesis
      using hd by (simp add: busy_cleared)
  next
    case False
    let ?d1 = "d\<lparr>disk_data := buffer d ! i,
                  disk_status := disk_status d AND NOT WDDRQ,
                  buffer_index := int i + 1\<rparr>"
    have "\<exists>d'. data_reads ?d1 n = Inr (take n (drop (Suc i) (buffer ?d1)), d') \<and>
              (0 < n \<and> Suc i + n = 256 \<longrightarrow> state d' = DISK_IDLE \<and> disk_status d' AND WDBusy = 0)"
      using Suc.prems by (intro Suc.IH) auto
    then obtain d' where d': "data_reads ?d1 n = Inr (take n (drop (Suc i) (buffer d)), d')"
      "0 < n \<and> Suc i + n = 256 \<longrightarrow> state d' = DISK_IDLE \<and> disk_status d' AND WDBusy = 0"
      by auto
    from False Suc.prems have "0 < n \<or> i + Suc n \<noteq> 256" by auto
    with False step d' hd show ?thesis by auto
  qed
qed

lemma header_size_take: "header_size (take 12 img) = header_size img"
  by (simp add: header_size_def)

lemma read_vdk_header_mounted:
  assumes "file_is_open (disk_img_file d)" and "length (vdk_header d) = 12"
    and "12 \<le> length (file_bytes (disk_img_file d))"
  shows "vdk_header (read_vdk_header d) = take 12 (file_bytes (disk_img_file d))"
    and "file_is_open (disk_img_file (read_vdk_header d))"
    and "file_bytes (disk_img_file (read_vdk_header d)) = file_bytes (disk_img_file d)"
    and "buffer (read_vdk_header d) = buffer d"
    and "state (read_vdk_header d) = state d"
  using assms
  by (auto simp: read_vdk_header_def fat32_fseek_def fat32_fread_def read_into_def Let_def
      min_def split: prod.splits)

lemma read_sector_command:
  assumes "disk_status d AND WDBusy = 0"
    and "disk_img_file_type d = FILE_VDK"
    and "file_is_open (disk_img_file d)"
    and "file_bytes (disk_img_file d) = img"
    and "length (vdk_header d) = 12"
    and "256 \<le> length (buffer d)"
    and "12 \<le> length img"
    and "1 \<le> unat (disk_sector d)"
    and "off = unat (header_size img)
                 + 256 * (18 * unat (disk_track d) + (unat (disk_sector d) - 1))"
    and "off + 256 \<le> length img"
  shows "\<exists>d1. io_handler_wd2797_cmd_stat d WDCmdReadSec MEM_WRITE = Inr (d1, 0) \<and>
              state d1 = DISK_READ \<and> buffer_index d1 = 0 \<and>
              buffer d1 = take 256 (drop off img) @ drop 256 (buffer d)"
proof -
  let ?d0 = "d\<lparr>disk_cmd := WDCmdReadSec, state := DISK_READ\<rparr>"
  let ?d1 = "read_vdk_header ?d0"
  have h: "vdk_header ?d1 = take 12 img" "file_is_open (disk_img_file ?d1)"
    "file_bytes (disk_img_file ?d1) = img" "buffer ?d1 = buffer d" "state ?d1 = DISK_READ"
    using read_vdk_header_mounted [of ?d0] assms by simp_all
  have addr: "cmd_seek_address ?d0 =
      (disk_to_image_offset (ucast (disk_track d)) (ucast (disk_sector d))
         + ucast (header_size img), ?d1)"
    using assms(2) by (simp add: cmd_seek_address_def Let_def h header_size_take)
  have un: "unat (disk_to_image_offset (ucast (disk_track d)) (ucast (disk_sector d))
         + ucast (header_size img)) = off"
    using seek_address_unat [OF assms(8)] assms(9) by simp
  have seek: "fat32_fseek (disk_img_file ?d1) off
        = (disk_img_file ?d1)\<lparr>current_position := off, eof_flag := False\<rparr>"
    using assms(10) h by (simp add: fat32_fseek_def)
  obtain f2 where rd:
      "fat32_fread ((disk_img_file ?d1)\<lparr>current_position := off, eof_flag := False\<rparr>) 256
        = (take 256 (drop off img), f2)"
    using assms(10) h by (simp add: fat32_fread_def Let_def min_def)
  have got: "read_into (take 256 (drop off img)) (buffer d)
        = take 256 (drop off img) @ drop 256 (buffer d)"
  proof -
    have "length (take 256 (drop off img)) = 256"
      using assms(10) by simp
    then show ?thesis
      using assms(6) by (simp add: read_into_def del: length_take)
  qed
  have cmd: "WDCmdReadSec \<noteq> WDCmdForceInt" "WDCmdReadSec AND WDCmdStepMask \<noteq> WDCmdRestore"
    "WDCmdReadSec AND WDCmdStepMask \<noteq> WDCmdSeek"
    by (simp_all add: WDCmdReadSec_def WDCmdForceInt_def WDCmdStepMask_def WDCmdRestore_def
        WDCmdSeek_def)
  have sz: "nat SECTOR_SIZE = 256"
    by (simp add: SECTOR_SIZE_def)
  show ?thesis
    using assms(1,2)
    by (simp add: io_handler_wd2797_cmd_stat_def Let_def cmd sz addr un seek rd got h)
qed


lemma read_sector_stream:
  assumes "disk_status d AND WDBusy = 0"
    and "disk_img_file_type d = FILE_VDK"
    and "file_is_open (disk_img_file d)"
    and "file_bytes (disk_img_file d) = img"
    and "length (vdk_header d) = 12"
    and "256 \<le> length (buffer d)"
    and "12 \<le> length img"
    and "1 \<le> unat (disk_sector d)"
    and "off = unat (header_size img)
                 + 256 * (18 * unat (disk_track d) + (unat (disk_sector d) - 1))"
    and "off + 256 \<le> length img"
  shows "\<exists>d'. read_sector d = Inr (take 256 (drop off img), d') \<and>
              state d' = DISK_IDLE \<and> disk_status d' AND WDBusy = 0"
proof -
  from read_sector_command [OF assms]
  obtain d1 where d1: "io_handler_wd2797_cmd_stat d WDCmdReadSec MEM_WRITE = Inr (d1, 0)"
    "state d1 = DISK_READ" "buffer_index d1 = 0"
    "buffer d1 = take 256 (drop off img) @ drop 256 (buffer d)"
    by blast
  have len: "256 \<le> length (buffer d1)"
    using d1(4) assms(10) by simp
  from data_reads_stream [of d1 0 256] d1 len
  obtain d' where d': "data_reads d1 256 = Inr (take 256 (drop 0 (buffer d1)), d')"
    "state d' = DISK_IDLE" "disk_status d' AND WDBusy = 0"
    by auto
  have "take 256 (buffer d1) = take 256 (drop off img)"
    using d1(4) assms(10) by simp
  with d1(1) d' show ?thesis
    by (simp add: read_sector_def)
qed


text \<open>
  C2 (amended). For a READ SECTOR command (0x88) accepted with a VDK image mounted, and a
  track and sector whose 256 bytes lie within the image, the 256 bytes returned by
  successive reads of the data register are the image bytes starting at offset
  \<open>header_size + track * 18 * 256 + (sector - 1) * 256\<close>, with \<open>header_size\<close> taken
  from the VDK header; the layout is single-sided, the header's side count does not enter.
  After the 256th read the controller is IDLE with Busy clear.
\<close>

theorem read_sector_returns_image_bytes:
  assumes "disk_status d AND WDBusy = 0"
    and "disk_img_file_type d = FILE_VDK"
    and "file_is_open (disk_img_file d)"
    and "file_bytes (disk_img_file d) = img"
    and "length (vdk_header d) = 12"
    and "256 \<le> length (buffer d)"
    and "12 \<le> length img"
    and "1 \<le> unat (disk_sector d)"
    and "off = unat (header_size img) + unat (disk_track d) * 18 * 256
                 + (unat (disk_sector d) - 1) * 256"
    and "off + 256 \<le> length img"
  shows "\<exists>d'. read_sector d = Inr (take 256 (drop off img), d') \<and>
              state d' = DISK_IDLE \<and> disk_status d' AND WDBusy = 0"
proof -
  have "off = unat (header_size img)
                + 256 * (18 * unat (disk_track d) + (unat (disk_sector d) - 1))"
    using assms(9) by simp
  from read_sector_stream [OF assms(1-8) this assms(10)] show ?thesis .
qed

lemma one_sided_facts:
  "disk_status one_sided_mounted AND WDBusy = 0"
  "disk_img_file_type one_sided_mounted = FILE_VDK"
  "file_is_open (disk_img_file one_sided_mounted)"
  "file_bytes (disk_img_file one_sided_mounted) = one_sided_vdk"
  "length (vdk_header one_sided_mounted) = 12"
  "256 \<le> length (buffer one_sided_mounted)"
  "12 \<le> length one_sided_vdk"
  "1 \<le> unat (disk_sector one_sided_mounted)"
  "4876 = unat (header_size one_sided_vdk) + unat (disk_track one_sided_mounted) * 18 * 256
                 + (unat (disk_sector one_sided_mounted) - 1) * 256"
  "4876 + 256 \<le> length one_sided_vdk"
  by (simp_all add: one_sided_mounted_def one_sided_vdk_def disk_init_def fat32_fopen_def
      header_size_def BYTES_PER_TRACK_def SEC_PER_TRACK_def SECTOR_SIZE_def)

theorem read_sector_returns_image_bytes_witness:
  "disk_status one_sided_mounted AND WDBusy = 0 \<and>
   disk_img_file_type one_sided_mounted = FILE_VDK \<and>
   file_is_open (disk_img_file one_sided_mounted) \<and>
   file_bytes (disk_img_file one_sided_mounted) = one_sided_vdk \<and>
   length (vdk_header one_sided_mounted) = 12 \<and>
   256 \<le> length (buffer one_sided_mounted) \<and>
   12 \<le> length one_sided_vdk \<and>
   1 \<le> unat (disk_sector one_sided_mounted) \<and>
   4876 + 256 \<le> length one_sided_vdk \<and>
   (\<exists>d'. read_sector one_sided_mounted = Inr (take 256 (drop 4876 one_sided_vdk), d') \<and>
         state d' = DISK_IDLE \<and> disk_status d' AND WDBusy = 0)"
  using read_sector_returns_image_bytes [OF one_sided_facts] one_sided_facts
  by blast

lemma two_sided_facts:
  "disk_status two_sided_mounted AND WDBusy = 0"
  "disk_img_file_type two_sided_mounted = FILE_VDK"
  "file_is_open (disk_img_file two_sided_mounted)"
  "file_bytes (disk_img_file two_sided_mounted) = two_sided_vdk"
  "length (vdk_header two_sided_mounted) = 12"
  "256 \<le> length (buffer two_sided_mounted)"
  "12 \<le> length two_sided_vdk"
  "1 \<le> unat (disk_sector two_sided_mounted)"
  "4620 = unat (header_size two_sided_vdk)
            + 256 * (18 * unat (disk_track two_sided_mounted)
                     + (unat (disk_sector two_sided_mounted) - 1))"
  "4620 + 256 \<le> length two_sided_vdk"
  by (simp_all add: two_sided_mounted_def two_sided_vdk_def disk_init_def fat32_fopen_def
      header_size_def BYTES_PER_TRACK_def SEC_PER_TRACK_def SECTOR_SIZE_def)

text \<open>
  C2 as stated fails on a two-sided image: at track 1, side 0, sector 1 the specification's
  offset \<open>header + ((track * sides) + side) * 18 * 256 + (sector - 1) * 256\<close> is 9228,
  where the image holds 0xA2, while the reads return the 0xA1 bytes at 4620.
\<close>

theorem read_sector_two_sided_counterexample:
  "vdk_sides two_sided_vdk = 2 \<and>
   spec_sector_offset (unat (header_size two_sided_vdk)) (vdk_sides two_sided_vdk) 1 0 1 = 9228 \<and>
   take 256 (drop 9228 two_sided_vdk) = replicate 256 0xA2 \<and>
   map_sum id fst (read_sector two_sided_mounted) = Inr (replicate 256 0xA1) \<and>
   map_sum id fst (read_sector two_sided_mounted)
     \<noteq> Inr (take 256 (drop (spec_sector_offset (unat (header_size two_sided_vdk))
                                (vdk_sides two_sided_vdk) 1 0 1) two_sided_vdk))"
proof -
  from read_sector_stream [OF two_sided_facts]
  obtain d' where "read_sector two_sided_mounted = Inr (take 256 (drop 4620 two_sided_vdk), d')"
    by blast
  moreover have "take 256 (drop 4620 two_sided_vdk) = replicate 256 0xA1"
    by (simp add: two_sided_vdk_def)
  moreover have "take 256 (drop 9228 two_sided_vdk) = replicate 256 0xA2"
    by (simp add: two_sided_vdk_def)
  moreover have "vdk_sides two_sided_vdk = 2" "unat (header_size two_sided_vdk) = 12"
    by (simp_all add: two_sided_vdk_def vdk_sides_def header_size_def)
  ultimately show ?thesis
    by (simp add: spec_sector_offset_def)
qed

subsection \<open>Tape trap: the stream state machine\<close>

lemma tape_switch_frame:
  assumes "tape_switch t b = (t', c)"
  shows "stream_i t' = stream_i t" and "cas_stream_buffer t' = cas_stream_buffer t"
    and "tape_writes t' = tape_writes t" and "count t' = count t"
    and "c = (tape_state t = CAS_STREAM_WRITE)" and "cas_file t' = cas_file t"
  using assms
  by (cases "tape_state t";
      auto simp: tape_switch_def cas_stream_header_def cas_stream_data_def cas_stream_eof_def
        Let_def split: if_splits)+

lemma store_next:
  assumes "length xs < 65535"
  shows "buffer_set (xs @ replicate (nat CAS_STREAM_SIZE - length xs) 0) (int (length xs)) b
         = Inr ((xs @ [b]) @ replicate (nat CAS_STREAM_SIZE - length (xs @ [b])) 0)"
proof -
  have "nat CAS_STREAM_SIZE - length xs = Suc (nat CAS_STREAM_SIZE - length (xs @ [b]))"
    using assms by (simp add: CAS_STREAM_SIZE_def)
  then show ?thesis
    using assms by (simp add: buffer_set_def CAS_STREAM_SIZE_def list_update_append)
qed

lemma tape_at_init: "tape_at (tape_init f) CAS_STREAM_IDLE (-1) (-1) (-1) [] []"
  by (simp add: tape_at_def tape_init_def)


lemma capture_byte_at:
  assumes "tape_at t st hc dc ec xs ws" and "length xs < 65535"
  shows "capture_byte t b =
     (let t2 = t\<lparr>cas_stream_buffer := (xs @ [b]) @ replicate (nat CAS_STREAM_SIZE - length (xs @ [b])) 0,
                  stream_i := int (length xs) + 1\<rparr>;
          (t3, complete) = tape_switch t2 b
      in if complete
         then Inr (t3\<lparr>tape_writes :=
                         tape_writes t3 @ [take (nat (stream_i t3)) (cas_stream_buffer t3)],
                       cas_file :=
                         loader_tape_fwrite (cas_file t3)
                           (take (nat (stream_i t3)) (cas_stream_buffer t3)),
                       stream_i := 0,
                       cas_stream_buffer := replicate (nat CAS_STREAM_SIZE) 0\<rparr>)
         else Inr t3)"
proof -
  have s: "buffer_set (cas_stream_buffer t) (stream_i t) b
        = Inr ((xs @ [b]) @ replicate (nat CAS_STREAM_SIZE - length (xs @ [b])) 0)"
    using assms store_next [of xs b] by (simp add: tape_at_def)
  have st: "stream_i t = int (length xs)"
    using assms by (simp add: tape_at_def)
  have ne: "int (length xs) + 1 \<noteq> CAS_STREAM_SIZE"
    using assms by (simp add: CAS_STREAM_SIZE_def)
  show ?thesis
    unfolding capture_byte_def s using ne by (simp add: Let_def st del: append_assoc)
qed

lemma nat_succ_int: "nat (int n + 1) = Suc n"
  by simp

lemma step_idle:
  assumes "tape_at t CAS_STREAM_IDLE hc dc ec xs ws" and "length xs < 65535"
  shows "\<exists>t'. capture_byte t b = Inr t' \<and>
     tape_at t' (if b = 0x55 then CAS_STREAM_LEADER else CAS_STREAM_IDLE) hc dc ec (xs @ [b]) ws"
  using assms(1) unfolding capture_byte_at [OF assms]
  by (simp add: tape_at_def tape_switch_def Let_def)

lemma step_leader:
  assumes "tape_at t CAS_STREAM_LEADER hc dc ec xs ws" and "length xs < 65535"
  shows "\<exists>t'. capture_byte t b = Inr t' \<and>
     tape_at t' (if b = 0x55 then CAS_STREAM_LEADER
                 else if b = 0x3C then CAS_STREAM_SYNC else CAS_STREAM_IDLE) hc dc ec (xs @ [b]) ws"
  using assms(1) unfolding capture_byte_at [OF assms]
  by (simp add: tape_at_def tape_switch_def Let_def)

lemma step_sync:
  assumes "tape_at t CAS_STREAM_SYNC hc dc ec xs ws" and "length xs < 65535"
  shows "\<exists>t'. capture_byte t b = Inr t' \<and>
     tape_at t' (if b = 0x00 then CAS_STREAM_HEADER
                 else if b = 0x01 then CAS_STREAM_DATA
                 else if b = 0xFF then CAS_STREAM_EOF else CAS_STREAM_IDLE) hc dc ec (xs @ [b]) ws"
  using assms(1) unfolding capture_byte_at [OF assms]
  by (simp add: tape_at_def tape_switch_def Let_def)

lemma step_header:
  assumes "tape_at t CAS_STREAM_HEADER hc dc ec xs ws" and "length xs < 65535"
  shows "\<exists>t'. capture_byte t b = Inr t' \<and>
     tape_at t' (if 0 \<le> hc \<and> hc - 1 < 0 then CAS_STREAM_LEADER else CAS_STREAM_HEADER)
       (if hc < 0 then uint b else hc - 1) dc ec (xs @ [b]) ws"
  using assms(1) unfolding capture_byte_at [OF assms]
  by (simp add: tape_at_def tape_switch_def cas_stream_header_def Let_def)

lemma step_data:
  assumes "tape_at t CAS_STREAM_DATA hc dc ec xs ws" and "length xs < 65535"
  shows "\<exists>t'. capture_byte t b = Inr t' \<and>
     tape_at t' (if 0 \<le> dc \<and> dc - 1 < 0 then CAS_STREAM_LEADER else CAS_STREAM_DATA)
       hc (if dc < 0 then uint b else dc - 1) ec (xs @ [b]) ws"
  using assms(1) unfolding capture_byte_at [OF assms]
  by (simp add: tape_at_def tape_switch_def cas_stream_data_def Let_def)

lemma step_eof:
  assumes "tape_at t CAS_STREAM_EOF hc dc ec xs ws" and "length xs < 65535"
  shows "\<exists>t'. capture_byte t b = Inr t' \<and>
     tape_at t' (if 0 \<le> ec \<and> ec - 1 < 0 then CAS_STREAM_WRITE else CAS_STREAM_EOF)
       hc dc (if ec < 0 then uint b else ec - 1) (xs @ [b]) ws"
  using assms(1) unfolding capture_byte_at [OF assms]
  by (simp add: tape_at_def tape_switch_def cas_stream_eof_def Let_def)

lemma step_write:
  assumes "tape_at t CAS_STREAM_WRITE hc dc ec xs ws" and "length xs < 65535"
  shows "\<exists>t'. capture_byte t b = Inr t' \<and>
     tape_at t' CAS_STREAM_IDLE hc dc ec [] (ws @ [xs @ [b]])"
  using assms(1) unfolding capture_byte_at [OF assms]
  by (simp add: tape_at_def tape_switch_def Let_def nat_succ_int)


lemma capture_bytes_append:
  "capture_bytes t (xs @ ys) =
     (case capture_bytes t xs of Inl e \<Rightarrow> Inl e | Inr t1 \<Rightarrow> capture_bytes t1 ys)"
  by (induction xs arbitrary: t) (auto split: sum.splits)

lemma capture_bytes_seq:
  "capture_bytes t xs = Inr t1 \<Longrightarrow> capture_bytes t1 ys = Inr t2
     \<Longrightarrow> capture_bytes t (xs @ ys) = Inr t2"
  by (simp add: capture_bytes_append)

text \<open>
  The CAS file changes only by the flushes: after any captured bytes it is the file before
  with the byte strings flushed since written to it, in order.
\<close>

lemma capture_byte_file:
  assumes "capture_byte t b = Inr t'"
  shows "\<exists>ws. tape_writes t' = tape_writes t @ ws \<and>
              cas_file t' = foldl loader_tape_fwrite (cas_file t) ws"
proof -
  from assms obtain B where B: "buffer_set (cas_stream_buffer t) (stream_i t) b = Inr B"
    by (cases "buffer_set (cas_stream_buffer t) (stream_i t) b") (simp_all add: capture_byte_def)
  define t2 where "t2 = (if stream_i t + 1 = CAS_STREAM_SIZE
                         then t\<lparr>cas_stream_buffer := B, stream_i := CAS_STREAM_SIZE - 1\<rparr>
                         else t\<lparr>cas_stream_buffer := B, stream_i := stream_i t + 1\<rparr>)"
  obtain t3 c where sw: "tape_switch t2 b = (t3, c)"
    by (cases "tape_switch t2 b")
  note fr = tape_switch_frame [OF sw]
  have t2: "tape_writes t2 = tape_writes t" "cas_file t2 = cas_file t"
    by (simp_all add: t2_def)
  have cb: "capture_byte t b =
      (if c then Inr (t3\<lparr>tape_writes :=
                           tape_writes t3 @ [take (nat (stream_i t3)) (cas_stream_buffer t3)],
                         cas_file :=
                           loader_tape_fwrite (cas_file t3)
                             (take (nat (stream_i t3)) (cas_stream_buffer t3)),
                         stream_i := 0, cas_stream_buffer := replicate (nat CAS_STREAM_SIZE) 0\<rparr>)
       else Inr t3)"
  proof (cases "stream_i t + 1 = CAS_STREAM_SIZE")
    case True
    with sw show ?thesis by (simp add: capture_byte_def B Let_def t2_def)
  next
    case False
    with sw show ?thesis by (simp add: capture_byte_def B Let_def t2_def)
  qed
  show ?thesis
  proof (cases c)
    case True
    with cb assms fr t2 show ?thesis
      by (intro exI [of _ "[take (nat (stream_i t3)) (cas_stream_buffer t3)]"]) auto
  next
    case False
    with cb assms fr t2 show ?thesis
      by (intro exI [of _ "[]"]) auto
  qed
qed

lemma capture_bytes_file:
  "capture_bytes t bs = Inr t' \<Longrightarrow>
     \<exists>ws. tape_writes t' = tape_writes t @ ws \<and>
          cas_file t' = foldl loader_tape_fwrite (cas_file t) ws"
proof (induction bs arbitrary: t)
  case Nil
  then show ?case by simp
next
  case (Cons b bs)
  from Cons.prems obtain t1 where t1: "capture_byte t b = Inr t1" "capture_bytes t1 bs = Inr t'"
    by (cases "capture_byte t b") simp_all
  from capture_byte_file [OF t1(1)] obtain ws1 where
    ws1: "tape_writes t1 = tape_writes t @ ws1"
      "cas_file t1 = foldl loader_tape_fwrite (cas_file t) ws1"
    by blast
  from Cons.IH [OF t1(2)] obtain ws2 where
    ws2: "tape_writes t' = tape_writes t1 @ ws2"
      "cas_file t' = foldl loader_tape_fwrite (cas_file t1) ws2"
    by blast
  from ws1 ws2 show ?case
    by (intro exI [of _ "ws1 @ ws2"]) simp
qed

lemma capture_bytes_init_file:
  assumes "capture_bytes (tape_init f) bs = Inr t"
  shows "cas_file t = foldl loader_tape_fwrite f (tape_writes t)"
  using capture_bytes_file [OF assms] by (auto simp: tape_init_def)


lemma fat32_fwrite_unmounted:
  assumes "\<not> file_is_open f \<or> file_bytes f = []"
  shows "fat32_fwrite f buf = f"
  using assms by (auto simp: fat32_fwrite_def)

text \<open>A leader: any number of 0x55 bytes taken in the LEADER state.\<close>

lemma run_leader:
  assumes "tape_at t CAS_STREAM_LEADER hc dc ec xs ws" and "length xs + n \<le> 65535"
  shows "\<exists>t'. capture_bytes t (replicate n 0x55) = Inr t' \<and>
              tape_at t' CAS_STREAM_LEADER hc dc ec (xs @ replicate n 0x55) ws"
  using assms
proof (induction n arbitrary: t xs)
  case 0
  then show ?case by simp
next
  case (Suc n)
  from Suc.prems have "length xs < 65535" by simp
  from step_leader [OF Suc.prems(1) this, of "0x55"]
  obtain t1 where t1: "capture_byte t 0x55 = Inr t1"
    "tape_at t1 CAS_STREAM_LEADER hc dc ec (xs @ [0x55]) ws"
    by auto
  from Suc.IH [OF t1(2)] Suc.prems(2)
  obtain t' where "capture_bytes t1 (replicate n 0x55) = Inr t'"
    "tape_at t' CAS_STREAM_LEADER hc dc ec ((xs @ [0x55]) @ replicate n 0x55) ws"
    by auto
  with t1(1) show ?case by (simp add: replicate_app_Cons_same)
qed

text \<open>The payload and the checksum of a block, taken with the byte count loaded.\<close>

lemma run_header_payload:
  assumes "tape_at t CAS_STREAM_HEADER (int (length p)) dc ec xs ws"
    and "length xs + length p + 1 \<le> 65535"
  shows "\<exists>t'. capture_bytes t (p @ [ck]) = Inr t' \<and>
              tape_at t' CAS_STREAM_LEADER (-1) dc ec (xs @ p @ [ck]) ws"
  using assms
proof (induction p arbitrary: t xs)
  case Nil
  from step_header [OF Nil(1), of ck] Nil(2) show ?case by auto
next
  case (Cons a p)
  from Cons.prems have "length xs < 65535" by simp
  from step_header [OF Cons.prems(1) this, of a]
  obtain t1 where t1: "capture_byte t a = Inr t1"
    "tape_at t1 CAS_STREAM_HEADER (int (length p)) dc ec (xs @ [a]) ws"
    by auto
  from Cons.IH [OF t1(2)] Cons.prems(2)
  obtain t' where "capture_bytes t1 (p @ [ck]) = Inr t'"
    "tape_at t' CAS_STREAM_LEADER (-1) dc ec ((xs @ [a]) @ p @ [ck]) ws"
    by auto
  with t1(1) show ?case by simp
qed

lemma run_data_payload:
  assumes "tape_at t CAS_STREAM_DATA hc (int (length p)) ec xs ws"
    and "length xs + length p + 1 \<le> 65535"
  shows "\<exists>t'. capture_bytes t (p @ [ck]) = Inr t' \<and>
              tape_at t' CAS_STREAM_LEADER hc (-1) ec (xs @ p @ [ck]) ws"
  using assms
proof (induction p arbitrary: t xs)
  case Nil
  from step_data [OF Nil(1), of ck] Nil(2) show ?case by auto
next
  case (Cons a p)
  from Cons.prems have "length xs < 65535" by simp
  from step_data [OF Cons.prems(1) this, of a]
  obtain t1 where t1: "capture_byte t a = Inr t1"
    "tape_at t1 CAS_STREAM_DATA hc (int (length p)) ec (xs @ [a]) ws"
    by auto
  from Cons.IH [OF t1(2)] Cons.prems(2)
  obtain t' where "capture_bytes t1 (p @ [ck]) = Inr t'"
    "tape_at t' CAS_STREAM_LEADER hc (-1) ec ((xs @ [a]) @ p @ [ck]) ws"
    by auto
  with t1(1) show ?case by simp
qed


lemma uint_length_byte: "length p \<le> 255 \<Longrightarrow> uint (of_nat (length p) :: byte) = int (length p)"
  by (simp add: uint_nat unat_of_nat)

lemma run_block_header:
  assumes "tape_at t CAS_STREAM_SYNC (-1) dc ec xs ws" and "length p \<le> 255"
    and "length xs + length (cas_block 0x00 p ck) \<le> 65535"
  shows "\<exists>t'. capture_bytes t (cas_block 0x00 p ck) = Inr t' \<and>
              tape_at t' CAS_STREAM_LEADER (-1) dc ec (xs @ cas_block 0x00 p ck) ws"
proof -
  from assms(3) have len: "length xs + length p + 3 \<le> 65535"
    by (simp add: cas_block_def)
  from step_sync [OF assms(1), of "0x00"] len
  obtain t1 where t1: "capture_byte t 0x00 = Inr t1"
    "tape_at t1 CAS_STREAM_HEADER (-1) dc ec (xs @ [0x00]) ws"
    by auto
  from step_header [OF t1(2), of "of_nat (length p)"] len uint_length_byte [OF assms(2)]
  obtain t2 where t2: "capture_byte t1 (of_nat (length p)) = Inr t2"
    "tape_at t2 CAS_STREAM_HEADER (int (length p)) dc ec ((xs @ [0x00]) @ [of_nat (length p)]) ws"
    by auto
  from run_header_payload [OF t2(2), of ck] len
  obtain t' where "capture_bytes t2 (p @ [ck]) = Inr t'"
    "tape_at t' CAS_STREAM_LEADER (-1) dc ec
       (((xs @ [0x00]) @ [of_nat (length p)]) @ p @ [ck]) ws"
    by auto
  with t1(1) t2(1) show ?thesis by (simp add: cas_block_def)
qed

lemma run_block_data:
  assumes "tape_at t CAS_STREAM_SYNC hc (-1) ec xs ws" and "length p \<le> 255"
    and "length xs + length (cas_block 0x01 p ck) \<le> 65535"
  shows "\<exists>t'. capture_bytes t (cas_block 0x01 p ck) = Inr t' \<and>
              tape_at t' CAS_STREAM_LEADER hc (-1) ec (xs @ cas_block 0x01 p ck) ws"
proof -
  from assms(3) have len: "length xs + length p + 3 \<le> 65535"
    by (simp add: cas_block_def)
  from step_sync [OF assms(1), of "0x01"] len
  obtain t1 where t1: "capture_byte t 0x01 = Inr t1"
    "tape_at t1 CAS_STREAM_DATA hc (-1) ec (xs @ [0x01]) ws"
    by auto
  from step_data [OF t1(2), of "of_nat (length p)"] len uint_length_byte [OF assms(2)]
  obtain t2 where t2: "capture_byte t1 (of_nat (length p)) = Inr t2"
    "tape_at t2 CAS_STREAM_DATA hc (int (length p)) ec ((xs @ [0x01]) @ [of_nat (length p)]) ws"
    by auto
  from run_data_payload [OF t2(2), of ck] len
  obtain t' where "capture_bytes t2 (p @ [ck]) = Inr t'"
    "tape_at t' CAS_STREAM_LEADER hc (-1) ec
       (((xs @ [0x01]) @ [of_nat (length p)]) @ p @ [ck]) ws"
    by auto
  with t1(1) t2(1) show ?thesis by (simp add: cas_block_def)
qed

lemma run_block_eof:
  assumes "tape_at t CAS_STREAM_SYNC hc dc (-1) xs ws"
    and "length xs + length (cas_block 0xFF [] ck) \<le> 65535"
  shows "\<exists>t'. capture_bytes t (cas_block 0xFF [] ck) = Inr t' \<and>
              tape_at t' CAS_STREAM_WRITE hc dc (-1) (xs @ cas_block 0xFF [] ck) ws"
proof -
  from assms(2) have len: "length xs + 3 \<le> 65535"
    by (simp add: cas_block_def)
  from step_sync [OF assms(1), of "0xFF"] len
  obtain t1 where t1: "capture_byte t 0xFF = Inr t1"
    "tape_at t1 CAS_STREAM_EOF hc dc (-1) (xs @ [0xFF]) ws"
    by auto
  from step_eof [OF t1(2), of "0x00"] len
  obtain t2 where t2: "capture_byte t1 0x00 = Inr t2"
    "tape_at t2 CAS_STREAM_EOF hc dc 0 ((xs @ [0xFF]) @ [0x00]) ws"
    by auto
  from step_eof [OF t2(2), of ck] len
  obtain t' where "capture_byte t2 ck = Inr t'"
    "tape_at t' CAS_STREAM_WRITE hc dc (-1) (((xs @ [0xFF]) @ [0x00]) @ [ck]) ws"
    by auto
  with t1(1) t2(1) show ?thesis by (simp add: cas_block_def)
qed

text \<open>Leader bytes and the sync byte in front of a block.\<close>

lemma run_frame:
  assumes "tape_at t CAS_STREAM_LEADER hc dc ec xs ws" and "length xs + n + 1 \<le> 65535"
  shows "\<exists>t'. capture_bytes t (replicate n 0x55 @ [0x3C]) = Inr t' \<and>
              tape_at t' CAS_STREAM_SYNC hc dc ec (xs @ replicate n 0x55 @ [0x3C]) ws"
proof -
  from run_leader [OF assms(1), of n] assms(2)
  obtain t1 where t1: "capture_bytes t (replicate n 0x55) = Inr t1"
    "tape_at t1 CAS_STREAM_LEADER hc dc ec (xs @ replicate n 0x55) ws"
    by auto
  from step_leader [OF t1(2), of "0x3C"] assms(2)
  obtain t' where "capture_byte t1 0x3C = Inr t'"
    "tape_at t' CAS_STREAM_SYNC hc dc ec ((xs @ replicate n 0x55) @ [0x3C]) ws"
    by auto
  with t1(1) show ?thesis by (simp add: capture_bytes_append)
qed

lemma run_first_frame:
  assumes "tape_at t CAS_STREAM_IDLE hc dc ec xs ws" and "1 \<le> n"
    and "length xs + n + 1 \<le> 65535"
  shows "\<exists>t'. capture_bytes t (replicate n 0x55 @ [0x3C]) = Inr t' \<and>
              tape_at t' CAS_STREAM_SYNC hc dc ec (xs @ replicate n 0x55 @ [0x3C]) ws"
proof -
  from assms(2) obtain k where n: "n = Suc k" by (cases n) auto
  from step_idle [OF assms(1), of "0x55"] assms(3)
  obtain t1 where t1: "capture_byte t 0x55 = Inr t1"
    "tape_at t1 CAS_STREAM_LEADER hc dc ec (xs @ [0x55]) ws"
    by auto
  from run_frame [OF t1(2), of k] assms(3) n
  obtain t' where "capture_bytes t1 (replicate k 0x55 @ [0x3C]) = Inr t'"
    "tape_at t' CAS_STREAM_SYNC hc dc ec ((xs @ [0x55]) @ replicate k 0x55 @ [0x3C]) ws"
    by auto
  with t1(1) n show ?thesis by simp
qed

lemma run_data_blocks:
  assumes "tape_at t CAS_STREAM_LEADER hc (-1) ec xs ws"
    and "\<forall>(n, p, ck) \<in> set ds. length p \<le> 255"
    and "length xs + length (data_blocks ds) \<le> 65535"
  shows "\<exists>t'. capture_bytes t (data_blocks ds) = Inr t' \<and>
              tape_at t' CAS_STREAM_LEADER hc (-1) ec (xs @ data_blocks ds) ws"
  using assms
proof (induction ds arbitrary: t xs)
  case Nil
  then show ?case by simp
next
  case (Cons d ds)
  obtain n p ck where d: "d = (n, p, ck)" by (cases d) auto
  from Cons.prems d have p: "length p \<le> 255" by simp
  let ?blk = "cas_block 0x01 p ck"
  from Cons.prems(3) d
  have len: "length xs + n + 1 + length ?blk + length (data_blocks ds) \<le> 65535"
    by (simp add: framed_def)
  from run_frame [OF Cons.prems(1), of n] len
  obtain t1 where t1: "capture_bytes t (replicate n 0x55 @ [0x3C]) = Inr t1"
    "tape_at t1 CAS_STREAM_SYNC hc (-1) ec (xs @ replicate n 0x55 @ [0x3C]) ws"
    by auto
  from run_block_data [OF t1(2) p, of ck] len
  obtain t2 where t2: "capture_bytes t1 ?blk = Inr t2"
    "tape_at t2 CAS_STREAM_LEADER hc (-1) ec ((xs @ replicate n 0x55 @ [0x3C]) @ ?blk) ws"
    by auto
  from Cons.IH [OF t2(2)] Cons.prems(2) len
  obtain t' where t': "capture_bytes t2 (data_blocks ds) = Inr t'"
    "tape_at t' CAS_STREAM_LEADER hc (-1) ec
       (((xs @ replicate n 0x55 @ [0x3C]) @ ?blk) @ data_blocks ds) ws"
    by auto
  have "capture_bytes t (((replicate n 0x55 @ [0x3C]) @ ?blk) @ data_blocks ds) = Inr t'"
    by (intro capture_bytes_seq [OF capture_bytes_seq [OF t1(1) t2(1)] t'(1)])
  with t'(2) d show ?case by (simp add: framed_def)
qed


lemma run_cas_stream:
  assumes "1 \<le> n" and "length hdr \<le> 255"
    and "\<forall>(k, p, ck) \<in> set ds. length p \<le> 255"
    and "length (cas_stream n hdr hck ds m eck) \<le> 65535"
  shows "\<exists>t. capture_bytes (tape_init f) (cas_stream n hdr hck ds m eck) = Inr t \<and>
             tape_at t CAS_STREAM_WRITE (-1) (-1) (-1) (cas_stream n hdr hck ds m eck) []"
proof -
  let ?h = "cas_block 0x00 hdr hck" and ?e = "cas_block 0xFF [] eck"
  let ?f1 = "replicate n 0x55 @ [0x3C]" and ?f2 = "replicate m 0x55 @ [0x3C]"
  have shape: "cas_stream n hdr hck ds m eck = (((?f1 @ ?h) @ data_blocks ds) @ ?f2) @ ?e"
    by (simp add: cas_stream_def framed_def)
  from assms(4) have len:
    "n + 1 + length ?h + length (data_blocks ds) + m + 1 + length ?e \<le> 65535"
    by (simp add: shape)
  from run_first_frame [OF tape_at_init assms(1)] len
  obtain t1 where t1: "capture_bytes (tape_init f) ?f1 = Inr t1"
    "tape_at t1 CAS_STREAM_SYNC (-1) (-1) (-1) ([] @ ?f1) []"
    by auto
  from run_block_header [OF t1(2) assms(2), of hck] len
  obtain t2 where t2: "capture_bytes t1 ?h = Inr t2"
    "tape_at t2 CAS_STREAM_LEADER (-1) (-1) (-1) (([] @ ?f1) @ ?h) []"
    by auto
  from run_data_blocks [OF t2(2) assms(3)] len
  obtain t3 where t3: "capture_bytes t2 (data_blocks ds) = Inr t3"
    "tape_at t3 CAS_STREAM_LEADER (-1) (-1) (-1) ((([] @ ?f1) @ ?h) @ data_blocks ds) []"
    by auto
  from run_frame [OF t3(2), of m] len
  obtain t4 where t4: "capture_bytes t3 ?f2 = Inr t4"
    "tape_at t4 CAS_STREAM_SYNC (-1) (-1) (-1)
       (((([] @ ?f1) @ ?h) @ data_blocks ds) @ ?f2) []"
    by auto
  from run_block_eof [OF t4(2), of eck] len
  obtain t5 where t5: "capture_bytes t4 ?e = Inr t5"
    "tape_at t5 CAS_STREAM_WRITE (-1) (-1) (-1)
       ((((([] @ ?f1) @ ?h) @ data_blocks ds) @ ?f2) @ ?e) []"
    by auto
  have "capture_bytes (tape_init f) ((((?f1 @ ?h) @ data_blocks ds) @ ?f2) @ ?e) = Inr t5"
    by (intro capture_bytes_seq [OF capture_bytes_seq [OF capture_bytes_seq
          [OF capture_bytes_seq [OF t1(1) t2(1)] t3(1)] t4(1)] t5(1)])
  with t5(2) show ?thesis
    unfolding shape by auto
qed

text \<open>
  The stream followed by one more byte: the byte after the EOF block's checksum is taken
  in the WRITE state, which flushes. Whatever file the loader holds, the trap is back in
  IDLE with an empty buffer, and the one flush has gone to \<^verbatim>\<open>loader_tape_fwrite\<close>.
\<close>

lemma run_cas_stream_trailer:
  assumes "1 \<le> n" and "length hdr \<le> 255"
    and "\<forall>(k, p, ck) \<in> set ds. length p \<le> 255"
    and "length (cas_stream n hdr hck ds m eck @ [trailer]) \<le> 65535"
  shows "\<exists>t. capture_bytes (tape_init f) (cas_stream n hdr hck ds m eck @ [trailer]) = Inr t \<and>
             tape_state t = CAS_STREAM_IDLE \<and> stream_i t = 0 \<and>
             tape_writes t = [cas_stream n hdr hck ds m eck @ [trailer]] \<and>
             cas_file t = fat32_fwrite f (cas_stream n hdr hck ds m eck @ [trailer])"
proof -
  from assms(4) have len: "length (cas_stream n hdr hck ds m eck) < 65535"
    by simp
  from run_cas_stream [OF assms(1-3), of hck m eck f] len
  obtain t1 where t1: "capture_bytes (tape_init f) (cas_stream n hdr hck ds m eck) = Inr t1"
    "tape_at t1 CAS_STREAM_WRITE (-1) (-1) (-1) (cas_stream n hdr hck ds m eck) []"
    by auto
  from step_write [OF t1(2) len, of trailer]
  obtain t where t: "capture_byte t1 trailer = Inr t"
    "tape_at t CAS_STREAM_IDLE (-1) (-1) (-1) [] ([] @ [cas_stream n hdr hck ds m eck @ [trailer]])"
    by auto
  from t(1) have "capture_bytes t1 [trailer] = Inr t" by simp
  from capture_bytes_seq [OF t1(1) this]
  have run: "capture_bytes (tape_init f) (cas_stream n hdr hck ds m eck @ [trailer]) = Inr t" .
  from t(2) have w: "tape_writes t = [cas_stream n hdr hck ds m eck @ [trailer]]"
    by (simp add: tape_at_def)
  from capture_bytes_init_file [OF run] w
  have cf: "cas_file t = fat32_fwrite f (cas_stream n hdr hck ds m eck @ [trailer])"
    by (simp add: loader_tape_fwrite_def)
  from t(2) have st: "tape_state t = CAS_STREAM_IDLE" and i: "stream_i t = 0"
    by (simp_all add: tape_at_def)
  show ?thesis
    by (rule exI [of _ t]) (intro conjI run st i w cf)
qed







text \<open>
  With no CAS file open (the power-on state) or with an empty one, \<^verbatim>\<open>fat32_fwrite\<close>
  returns without writing: the same stream and trailing byte leave the trap in IDLE with
  its buffer cleared, and the file as it was.
\<close>

lemma cas_stream_without_file_is_dropped:
  assumes "1 \<le> n" and "length hdr \<le> 255"
    and "\<forall>(k, p, ck) \<in> set ds. length p \<le> 255"
    and "length (cas_stream n hdr hck ds m eck @ [trailer]) \<le> 65535"
    and "\<not> file_is_open f \<or> file_bytes f = []"
  shows "\<exists>t. capture_bytes (tape_init f) (cas_stream n hdr hck ds m eck @ [trailer]) = Inr t \<and>
             tape_state t = CAS_STREAM_IDLE \<and> stream_i t = 0 \<and> cas_file t = f"
  using run_cas_stream_trailer [OF assms(1-4), of f] fat32_fwrite_unmounted [OF assms(5)]
  by auto

subsection \<open>Tape trap: invocations, captured bytes and the buffer index\<close>

lemma tape_switch_count:
  "tape_switch (t\<lparr>count := k\<rparr>) b = (case tape_switch t b of (t', c) \<Rightarrow> (t'\<lparr>count := k\<rparr>, c))"
  by (cases "tape_state t";
      simp add: tape_switch_def cas_stream_header_def cas_stream_data_def cas_stream_eof_def
        Let_def)


lemma tape_switch_count_stored:
  "tape_switch (t\<lparr>count := k, cas_stream_buffer := B, stream_i := I\<rparr>) b =
     (case tape_switch (t\<lparr>cas_stream_buffer := B, stream_i := I\<rparr>) b of
        (t', c) \<Rightarrow> (t'\<lparr>count := k\<rparr>, c))"
  by (cases "tape_state t";
      simp add: tape_switch_def cas_stream_header_def cas_stream_data_def cas_stream_eof_def
        Let_def)

lemma capture_byte_count:
  "capture_byte (t\<lparr>count := k\<rparr>) b = with_count k (capture_byte t b)"
proof (cases "buffer_set (cas_stream_buffer t) (stream_i t) b")
  case (Inl e)
  then show ?thesis by (simp add: capture_byte_def with_count_def)
next
  case (Inr B)
  then show ?thesis
    by (simp add: capture_byte_def with_count_def tape_switch_count_stored Let_def
        split: prod.splits)
qed

lemma recount: "with_count a (with_count c x) = with_count a x"
  by (cases x) (simp_all add: with_count_def)

lemma capture_bytes_count:
  "capture_bytes (t\<lparr>count := k\<rparr>) bs = with_count k (capture_bytes t bs)"
proof (induction bs arbitrary: t)
  case Nil
  show ?case by (simp add: with_count_def)
next
  case (Cons b bs)
  show ?case
    by (cases "capture_byte t b") (simp_all add: capture_byte_count Cons.IH with_count_def)
qed

lemma capture_byte_keeps_count: "capture_byte t b = Inr t' \<Longrightarrow> count t' = count t"
  by (auto simp: capture_byte_def Let_def split: sum.splits prod.splits if_splits
      dest: tape_switch_frame(4))

lemma tape_run_as_captures:
  "tape_run t invs =
     with_count (final_count (count t) invs) (capture_bytes t (fetched (count t) invs))"
proof (induction invs arbitrary: t)
  case Nil
  show ?case by (simp add: with_count_def)
next
  case (Cons v vs)
  let ?c1 = "if counted v then count t + 1 else count t"
  show ?case
  proof (cases "?c1 = 16")
    case True
    let ?b = "stack_byte v"
    have h: "io_handler_cas_tape (inv_bus v) (inv_pc v) (inv_s v) t (inv_data v) (inv_op v)
          = (case capture_byte (t\<lparr>count := 0\<rparr>) ?b of Inl e \<Rightarrow> Inl e
             | Inr t2 \<Rightarrow> Inr (t2, inv_data v))"
      using True by (auto simp: io_handler_cas_tape_def counted_def stack_byte_def Let_def)
    show ?thesis
    proof (cases "capture_byte t ?b")
      case (Inl e)
      with True h show ?thesis by (simp add: capture_byte_count Let_def with_count_def)
    next
      case (Inr t2)
      have a: "tape_run t (v # vs) = tape_run (t2\<lparr>count := 0\<rparr>) vs"
        using h Inr by (simp add: capture_byte_count with_count_def)
      have b: "with_count (final_count (count t) (v # vs))
                 (capture_bytes t (fetched (count t) (v # vs)))
               = with_count (final_count 0 vs) (capture_bytes t2 (fetched 0 vs))"
        using True Inr by (simp add: Let_def)
      have "tape_run (t2\<lparr>count := 0\<rparr>) vs
              = with_count (final_count 0 vs) (with_count 0 (capture_bytes t2 (fetched 0 vs)))"
        using Cons.IH [of "t2\<lparr>count := 0\<rparr>"] by (simp add: capture_bytes_count)
      with a b show ?thesis by (simp only: recount)
    qed
  next
    case False
    have h: "io_handler_cas_tape (inv_bus v) (inv_pc v) (inv_s v) t (inv_data v) (inv_op v)
          = Inr (t\<lparr>count := ?c1\<rparr>, inv_data v)"
      using False by (auto simp: io_handler_cas_tape_def counted_def Let_def)
    from Cons.IH [of "t\<lparr>count := ?c1\<rparr>"] False h show ?thesis
      by (simp add: capture_bytes_count Let_def recount)
  qed
qed

lemma length_fetched:
  "0 \<le> c \<Longrightarrow> c < 16 \<Longrightarrow>
     length (fetched c invs) = (nat c + length (filter counted invs)) div 16"
proof (induction invs arbitrary: c)
  case Nil
  then show ?case by simp
next
  case (Cons v vs)
  show ?case
  proof (cases "counted v")
    case True
    show ?thesis
    proof (cases "c + 1 = 16")
      case c16: True
      then have "nat c = 15" by simp
      with True c16 Cons.IH [of 0] show ?thesis by (simp add: Let_def)
    next
      case False
      with Cons.prems have "0 \<le> c + 1" "c + 1 < 16" by simp_all
      from Cons.IH [OF this] True False Cons.prems show ?thesis
        by (simp add: Let_def nat_add_distrib)
    qed
  next
    case False
    with Cons.IH [OF Cons.prems] Cons.prems show ?thesis by (simp add: Let_def)
  qed
qed


text \<open>
  C4 (amended). For every sequence of invocations of the cassette-trap handler after
  \<^verbatim>\<open>tape_init\<close>, whatever CAS file the loader holds, only invocations made while the
  CPU's PC is 0xBE1C or 0xBE3F are counted;
  every 16th counted invocation, and no other invocation, captures one byte, read through
  the bus from the address in the hardware stack pointer S, and hands it to the capture
  step, which stores it at the buffer's current index. The run equals capturing exactly
  those bytes in order, and their number is the number of counted invocations divided
  by 16.
\<close>

theorem every_16th_counted_invocation_captures:
  "tape_run (tape_init f) invs
     = with_count (final_count 0 invs) (capture_bytes (tape_init f) (fetched 0 invs)) \<and>
   length (fetched 0 invs) = length (filter counted invs) div 16"
  using tape_run_as_captures [of "tape_init f" invs] length_fetched [of 0 invs]
  by (simp add: tape_init_def)

lemma fetched_casbyteout: "fetched 0 (replicate 16 casbyteout) = [0x55]"
  by code_simp

lemma final_count_casbyteout: "final_count 0 (replicate 16 casbyteout) = 0"
  by code_simp

lemma counted_casbyteout: "length (filter counted (replicate 16 casbyteout)) div 16 = 1"
  by code_simp

lemma elsewhere_facts:
  "fetched 0 (replicate 16 elsewhere) = []" "final_count 0 (replicate 16 elsewhere) = 0"
  by code_simp+

theorem every_16th_counted_invocation_captures_witness:
  "tape_run (tape_init closed_file) (replicate 16 casbyteout)
     = with_count 0 (capture_bytes (tape_init closed_file) [0x55]) \<and>
   length (filter counted (replicate 16 casbyteout)) div 16 = 1"
  using every_16th_counted_invocation_captures [of closed_file "replicate 16 casbyteout"]
  by (simp only: fetched_casbyteout final_count_casbyteout counted_casbyteout simp_thms)

text \<open>
  C4 as stated fails: sixteen invocations made while the PC is elsewhere (0x8000) leave
  the trap as it was; the sixteenth captures nothing.
\<close>

theorem uncounted_invocations_counterexample:
  "tape_run (tape_init closed_file) (replicate 16 elsewhere) = Inr (tape_init closed_file)"
proof -
  have "count (tape_init closed_file) = 0"
    "(tape_init closed_file)\<lparr>count := 0\<rparr> = tape_init closed_file"
    by (simp_all add: tape_init_def)
  with tape_run_as_captures [of "tape_init closed_file" "replicate 16 elsewhere"] show ?thesis
    by (simp add: elsewhere_facts with_count_def)
qed

lemma capture_byte_in_bounds:
  assumes "capture_in_bounds t"
  shows "\<exists>t'. capture_byte t b = Inr t' \<and> capture_in_bounds t' \<and>
     (tape_state t \<noteq> CAS_STREAM_WRITE \<longrightarrow>
        cas_stream_buffer t' = (cas_stream_buffer t)[nat (stream_i t) := b] \<and>
        stream_i t' = min (stream_i t + 1) (CAS_STREAM_SIZE - 1))"
proof -
  define B where "B = (cas_stream_buffer t)[nat (stream_i t) := b]"
  define I where "I = min (stream_i t + 1) (CAS_STREAM_SIZE - 1)"
  have st: "buffer_set (cas_stream_buffer t) (stream_i t) b = Inr B"
    using assms by (simp add: capture_in_bounds_def buffer_set_def B_def)
  have clamp: "(if stream_i t + 1 = CAS_STREAM_SIZE then CAS_STREAM_SIZE - 1 else stream_i t + 1) = I"
    using assms by (simp add: capture_in_bounds_def I_def)
  obtain t3 c where sw: "tape_switch (t\<lparr>cas_stream_buffer := B, stream_i := I\<rparr>) b = (t3, c)"
    by (cases "tape_switch (t\<lparr>cas_stream_buffer := B, stream_i := I\<rparr>) b")
  note fr = tape_switch_frame [OF sw]
  have cb: "capture_byte t b =
      (if c then Inr (t3\<lparr>tape_writes := tape_writes t3 @ [take (nat (stream_i t3)) (cas_stream_buffer t3)],
                         cas_file := loader_tape_fwrite (cas_file t3)
                                       (take (nat (stream_i t3)) (cas_stream_buffer t3)),
                         stream_i := 0, cas_stream_buffer := replicate (nat CAS_STREAM_SIZE) 0\<rparr>)
       else Inr t3)"
  proof (cases "stream_i t + 1 = CAS_STREAM_SIZE")
    case True
    with clamp have "I = CAS_STREAM_SIZE - 1" by simp
    with True sw show ?thesis by (simp add: capture_byte_def st Let_def)
  next
    case False
    with clamp have "I = stream_i t + 1" by simp
    with False sw show ?thesis by (simp add: capture_byte_def st Let_def)
  qed
  have I: "0 \<le> I" "I < CAS_STREAM_SIZE"
    using assms by (simp_all add: capture_in_bounds_def CAS_STREAM_SIZE_def I_def)
  then have "nat I < nat CAS_STREAM_SIZE"
    by simp
  moreover have "length (take (nat I) B) \<le> nat I"
    by simp
  ultimately have lw: "length (take (nat I) B) < nat CAS_STREAM_SIZE"
    by (rule le_less_trans [rotated])
  have lB: "length B = nat CAS_STREAM_SIZE"
    using assms by (simp add: capture_in_bounds_def B_def)
  have bounds: "capture_in_bounds t3"
    using assms I lB fr by (simp add: capture_in_bounds_def)
  show ?thesis
  proof (cases c)
    case True
    with fr(5) have "tape_state t = CAS_STREAM_WRITE" by simp
    moreover have "capture_in_bounds
        (t3\<lparr>tape_writes := tape_writes t3 @ [take (nat (stream_i t3)) (cas_stream_buffer t3)],
            cas_file := loader_tape_fwrite (cas_file t3)
                          (take (nat (stream_i t3)) (cas_stream_buffer t3)),
            stream_i := 0, cas_stream_buffer := replicate (nat CAS_STREAM_SIZE) 0\<rparr>)"
      using bounds lw fr by (simp add: capture_in_bounds_def CAS_STREAM_SIZE_def)
    ultimately show ?thesis
      using True cb by simp
  next
    case False
    with cb bounds fr show ?thesis
      by (simp add: B_def I_def)
  qed
qed

lemma handler_in_bounds:
  assumes "capture_in_bounds t"
  shows "\<exists>t' r. io_handler_cas_tape mem_read pc s t data op = Inr (t', r) \<and> capture_in_bounds t'"
proof -
  have c: "capture_in_bounds (t\<lparr>count := k\<rparr>)" for k
    using assms by (simp add: capture_in_bounds_def)
  let ?t1 = "if pc = 0xBE1C \<or> pc = 0xBE3F then t\<lparr>count := count t + 1\<rparr> else t"
  have c1: "capture_in_bounds ?t1"
    using assms c by simp
  show ?thesis
  proof (cases "count ?t1 = 16")
    case True
    from capture_byte_in_bounds [OF c [of 0], of "word_of_int (mem_read (uint s))"]
    obtain t' where "capture_byte (t\<lparr>count := 0\<rparr>) (word_of_int (mem_read (uint s))) = Inr t'"
      "capture_in_bounds t'"
      by blast
    with True show ?thesis
      by (simp add: io_handler_cas_tape_def Let_def)
  next
    case False
    with c1 show ?thesis
      by (simp add: io_handler_cas_tape_def Let_def)
  qed
qed

lemma tape_run_in_bounds:
  "capture_in_bounds t \<Longrightarrow> \<exists>t'. tape_run t invs = Inr t' \<and> capture_in_bounds t'"
proof (induction invs arbitrary: t)
  case Nil
  then show ?case by simp
next
  case (Cons v vs)
  from handler_in_bounds [OF Cons.prems]
  obtain t1 r where "io_handler_cas_tape (inv_bus v) (inv_pc v) (inv_s v) t (inv_data v) (inv_op v)
      = Inr (t1, r)" "capture_in_bounds t1"
    by blast
  with Cons.IH [of t1] show ?case by simp
qed

lemma tape_init_in_bounds: "capture_in_bounds (tape_init f)"
  by (simp add: capture_in_bounds_def tape_init_def CAS_STREAM_SIZE_def)

text \<open>
  C10. After any sequence of invocations from \<^verbatim>\<open>tape_init\<close>, whatever CAS file the
  loader holds, the handler has not
  stored outside the buffer (no run ends in \<open>ARRAY_BOUNDS\<close>), the capture index lies in
  0..65535, the buffer holds 65536 cells, and every flushed output is at most 65535 bytes
  long. The next captured byte is stored at the index, and the index then is one more,
  clamped at 65535 (so once there, every further byte overwrites the last cell); the
  capture that flushes resets the index instead.
\<close>

theorem capture_index_stays_in_buffer:
  "\<exists>t. tape_run (tape_init f) invs = Inr t \<and>
        0 \<le> stream_i t \<and> stream_i t \<le> 65535 \<and> length (cas_stream_buffer t) = 65536 \<and>
        (\<forall>w \<in> set (tape_writes t). length w \<le> 65535) \<and>
        (\<forall>b. \<exists>t'. capture_byte t b = Inr t' \<and>
           (tape_state t \<noteq> CAS_STREAM_WRITE \<longrightarrow>
              cas_stream_buffer t' = (cas_stream_buffer t)[nat (stream_i t) := b] \<and>
              stream_i t' = min (stream_i t + 1) 65535))"
proof -
  from tape_run_in_bounds [OF tape_init_in_bounds, of f invs]
  obtain t where t: "tape_run (tape_init f) invs = Inr t" "capture_in_bounds t"
    by blast
  have "\<exists>t'. capture_byte t b = Inr t' \<and>
           (tape_state t \<noteq> CAS_STREAM_WRITE \<longrightarrow>
              cas_stream_buffer t' = (cas_stream_buffer t)[nat (stream_i t) := b] \<and>
              stream_i t' = min (stream_i t + 1) 65535)" for b
    using capture_byte_in_bounds [OF t(2), of b] by (auto simp: CAS_STREAM_SIZE_def)
  with t show ?thesis
    by (auto simp: capture_in_bounds_def CAS_STREAM_SIZE_def intro!: exI [of _ t])
qed


lemma run_casbyteout:
  "tape_run (tape_init closed_file) (replicate 16 casbyteout) = Inr captured_leader"
proof -
  have "capture_byte (tape_init closed_file) 0x55 = Inr captured_leader"
    by (simp add: capture_byte_def buffer_set_def tape_init_def CAS_STREAM_SIZE_def
        tape_switch_def captured_leader_def Let_def)
  moreover have "captured_leader\<lparr>count := 0\<rparr> = captured_leader"
    by (simp add: captured_leader_def tape_init_def)
  moreover have "count (tape_init closed_file) = 0"
    by (simp add: tape_init_def)
  ultimately show ?thesis
    using tape_run_as_captures [of "tape_init closed_file" "replicate 16 casbyteout"]
    by (simp add: fetched_casbyteout final_count_casbyteout with_count_def)
qed

theorem capture_index_stays_in_buffer_witness:
  "tape_run (tape_init closed_file) (replicate 16 casbyteout) = Inr captured_leader \<and>
   stream_i captured_leader \<le> 65535 \<and>
   tape_state captured_leader \<noteq> CAS_STREAM_WRITE \<and>
   (\<exists>t'. capture_byte captured_leader 0x3C = Inr t' \<and>
         cas_stream_buffer t' = (cas_stream_buffer captured_leader)[nat (stream_i captured_leader) := 0x3C] \<and>
         stream_i t' = min (stream_i captured_leader + 1) 65535)"
proof -
  have st: "tape_state captured_leader \<noteq> CAS_STREAM_WRITE"
    by (simp add: captured_leader_def)
  from capture_index_stays_in_buffer [of closed_file "replicate 16 casbyteout"] run_casbyteout st
  show ?thesis by auto
qed

subsection \<open>VDG: the mode decoder\<close>

lemma byte_of_unat: "unat (g :: byte) = n \<Longrightarrow> g = of_nat n"
  by auto

lemma gm_values: "(pia AND 0x0E :: byte) \<in> {0, 2, 4, 6, 8, 10, 12, 14}"
proof -
  define g where "g = pia AND 0x0E"
  have le: "unat g \<le> 14"
    unfolding g_def using word_and_le1 [of pia "0x0E"] by (simp add: word_le_nat_alt)
  have ev: "g AND 1 = 0"
    unfolding g_def by (simp add: and.assoc)
  from le have "unat g = 0 \<or> unat g = 1 \<or> unat g = 2 \<or> unat g = 3 \<or> unat g = 4
    \<or> unat g = 5 \<or> unat g = 6 \<or> unat g = 7 \<or> unat g = 8 \<or> unat g = 9
    \<or> unat g = 10 \<or> unat g = 11 \<or> unat g = 12 \<or> unat g = 13 \<or> unat g = 14"
    by arith
  then have "g \<in> {0, 2, 4, 6, 8, 10, 12, 14}"
    using ev by (elim disjE) (auto dest!: byte_of_unat)
  then show ?thesis by (simp only: g_def)
qed

lemma graphics_decode:
  assumes "sam \<noteq> 7" and "pia AND 0x10 \<noteq> 0"
  shows "vdg_get_mode sam pia = Inr (spec_graphics_mode pia)"
proof -
  from gm_values [of pia]
  consider "pia AND 0x0E = 0" | "pia AND 0x0E = 2" | "pia AND 0x0E = 4" | "pia AND 0x0E = 6"
    | "pia AND 0x0E = 8" | "pia AND 0x0E = 10" | "pia AND 0x0E = 12" | "pia AND 0x0E = 14"
    by auto
  then show ?thesis
    using assms
    by cases (simp_all add: vdg_get_mode_def spec_graphics_mode_def Let_def)
qed


text \<open>
  C1 (amended). For every SAM mode and PIA mode byte the decoder yields: DMA for SAM mode
  7; otherwise, with \<^verbatim>\<open>^A/G\<close> = 1, the graphics mode selected by GM2..GM0
  (G1C, G1R, G2C, G2R, G3C, G3R, G6C, G6R), whatever the SAM mode; with \<^verbatim>\<open>^A/G\<close> = 0 and
  \<^verbatim>\<open>GM0/^INT\<close> = 0, ALPHA_INTERNAL for SAM mode 0, SG8 for SAM mode 2, SG12 for SAM mode
  4 and no mode (UNDEFINED) for SAM modes 1, 3 and 5; with \<^verbatim>\<open>^A/G\<close> = 0 and
  \<^verbatim>\<open>GM0/^INT\<close> = 1, SEMI_GRAPHICS_6 for SAM mode 0 and no mode for SAM modes 1..6.
  SAM mode 6 with \<^verbatim>\<open>^A/G\<close> = 0 and \<^verbatim>\<open>GM0/^INT\<close> = 0 is left open.
\<close>

theorem vdg_get_mode_truth_table:
  "vdg_get_mode 7 pia = Inr DMA \<and>
   (sam \<noteq> 7 \<and> pia AND 0x10 \<noteq> 0 \<longrightarrow> vdg_get_mode sam pia = Inr (spec_graphics_mode pia)) \<and>
   (pia AND 0x10 = 0 \<and> pia AND 0x02 = 0 \<longrightarrow>
      vdg_get_mode 0 pia = Inr ALPHA_INTERNAL \<and>
      vdg_get_mode 2 pia = Inr SEMI_GRAPHICS_8 \<and>
      vdg_get_mode 4 pia = Inr SEMI_GRAPHICS_12 \<and>
      (sam \<in> {1, 3, 5} \<longrightarrow> vdg_get_mode sam pia = Inr UNDEFINED)) \<and>
   (pia AND 0x10 = 0 \<and> pia AND 0x02 \<noteq> 0 \<longrightarrow>
      vdg_get_mode 0 pia = Inr SEMI_GRAPHICS_6 \<and>
      (sam \<in> {1, 2, 3, 4, 5, 6} \<longrightarrow> vdg_get_mode sam pia = Inr UNDEFINED))"
proof (intro conjI impI)
  show "vdg_get_mode 7 pia = Inr DMA"
    by (simp add: vdg_get_mode_def)
  show "vdg_get_mode sam pia = Inr (spec_graphics_mode pia)"
    if "sam \<noteq> 7 \<and> pia AND 0x10 \<noteq> 0"
    using that graphics_decode by simp
  show "vdg_get_mode 0 pia = Inr ALPHA_INTERNAL" "vdg_get_mode 2 pia = Inr SEMI_GRAPHICS_8"
    "vdg_get_mode 4 pia = Inr SEMI_GRAPHICS_12"
    if "pia AND 0x10 = 0 \<and> pia AND 0x02 = 0"
    using that by (simp_all add: vdg_get_mode_def)
  show "vdg_get_mode sam pia = Inr UNDEFINED"
    if "pia AND 0x10 = 0 \<and> pia AND 0x02 = 0" and "sam \<in> {1, 3, 5}"
    using that by (auto simp: vdg_get_mode_def)
  show "vdg_get_mode 0 pia = Inr SEMI_GRAPHICS_6"
    if "pia AND 0x10 = 0 \<and> pia AND 0x02 \<noteq> 0"
    using that by (simp add: vdg_get_mode_def)
  show "vdg_get_mode sam pia = Inr UNDEFINED"
    if "pia AND 0x10 = 0 \<and> pia AND 0x02 \<noteq> 0" and "sam \<in> {1, 2, 3, 4, 5, 6}"
    using that by (auto simp: vdg_get_mode_def)
qed

theorem vdg_get_mode_truth_table_witness:
  "vdg_get_mode 7 0x00 = Inr DMA \<and>
   vdg_get_mode 3 0x1A = Inr GRAPHICS_3R \<and>
   vdg_get_mode 0 0x00 = Inr ALPHA_INTERNAL \<and>
   vdg_get_mode 2 0x00 = Inr SEMI_GRAPHICS_8 \<and>
   vdg_get_mode 4 0x00 = Inr SEMI_GRAPHICS_12 \<and>
   vdg_get_mode 5 0x00 = Inr UNDEFINED \<and>
   vdg_get_mode 0 0x02 = Inr SEMI_GRAPHICS_6 \<and>
   vdg_get_mode 2 0x02 = Inr UNDEFINED"
  using vdg_get_mode_truth_table [of "0x00" 5] vdg_get_mode_truth_table [of "0x1A" 3]
    vdg_get_mode_truth_table [of "0x02" 2]
  by (simp add: spec_graphics_mode_def)

text \<open>
  C1 as stated fails: for SAM mode 2 with PIA byte 0x02 (\<^verbatim>\<open>^A/G\<close> = 0, GM0 = 1) the
  matrix gives SG8 and the decoder gives no mode; likewise SAM mode 4 with 0x02, where the
  matrix gives SG12 or SG24; and SAM mode 0 with \<^verbatim>\<open>^A/G\<close> = 1 decodes to G1C, for which
  the matrix has no row.
\<close>

theorem vdg_get_mode_counterexample:
  "vdg_get_mode 2 0x02 = Inr UNDEFINED \<and> \<not> spec_mode_table 2 0x02 UNDEFINED \<and>
   spec_mode_table 2 0x02 SEMI_GRAPHICS_8 \<and>
   vdg_get_mode 4 0x02 = Inr UNDEFINED \<and> \<not> spec_mode_table 4 0x02 UNDEFINED \<and>
   vdg_get_mode 0 0x10 = Inr GRAPHICS_1C \<and> \<not> spec_mode_table 0 0x10 GRAPHICS_1C"
  by (simp add: vdg_get_mode_def spec_mode_table_def)

subsection \<open>VDG: the alphanumeric renderer\<close>

lemma length_concat_upt:
  assumes "\<And>i. i < n \<Longrightarrow> length (f i) = k"
  shows "length (concat (map f [0..<n])) = n * k"
  using assms by (induction n) simp_all

lemma nth_concat_upt:
  assumes "\<And>i. i < n \<Longrightarrow> length (f i) = k" and "i < n" and "j < k"
  shows "concat (map f [0..<n]) ! (i * k + j) = f i ! j"
  using assms
proof (induction n)
  case 0
  then show ?case by simp
next
  case (Suc n)
  have len: "length (concat (map f [0..<n])) = n * k"
    using Suc.prems(1) by (intro length_concat_upt) simp
  show ?case
  proof (cases "i < n")
    case True
    then have "i * k + j < n * k"
    proof -
      from True have "Suc i \<le> n" by simp
      then have "Suc i * k \<le> n * k" by (rule mult_le_mono1)
      with Suc.prems(3) show ?thesis by simp
    qed
    with True Suc show ?thesis by (simp add: nth_append len)
  next
    case False
    with Suc.prems(2) have "i = n" by simp
    with Suc.prems(3) show ?thesis by (simp add: nth_append len)
  qed
qed

lemma length_cell_pixels: "length (cell_pixels p fg bg) = 8"
  by (simp add: cell_pixels_def FONT_WIDTH_def)

lemma length_alpha_semi4_cell: "length (alpha_semi4_cell ft bm cs c fr) = 8"
  by (simp add: alpha_semi4_cell_def length_cell_pixels Let_def split: prod.splits)

lemma length_semi6_cell: "length (semi6_cell ft bm cs c fr) = 8"
  by (simp add: semi6_cell_def length_cell_pixels)

lemma length_cell_row:
  assumes "\<And>col. length (f col) = 8"
  shows "length (concat (map f [0..<SCREEN_WIDTH_CHAR])) = 256"
  using length_concat_upt [of SCREEN_WIDTH_CHAR f 8] assms by (simp add: SCREEN_WIDTH_CHAR_def)

lemma length_alpha_semi4: "length (vdg_render_alpha_semi4 ft bm mem_read pia base) = 49152"
proof -
  let ?cell = "\<lambda>row font_row col. alpha_semi4_cell ft bm (css_color bm pia)
      (mem_read (int col + (int row * int SCREEN_WIDTH_CHAR + base))) font_row"
  let ?line = "\<lambda>row font_row. concat (map (?cell row font_row) [0..<SCREEN_WIDTH_CHAR])"
  let ?rows = "\<lambda>row. concat (map (?line row) [0..<FONT_HEIGHT])"
  have l: "length (?line row font_row) = 256" for row font_row
    by (rule length_cell_row) (rule length_alpha_semi4_cell)
  have r: "length (?rows row) = 3072" for row
    using length_concat_upt [of FONT_HEIGHT "?line row" 256] l by (simp add: FONT_HEIGHT_def)
  show ?thesis
    unfolding vdg_render_alpha_semi4_def
    using length_concat_upt [of SCREEN_HEIGHT_CHAR ?rows 3072] r
    by (simp add: SCREEN_HEIGHT_CHAR_def)
qed

lemma length_semi6: "length (vdg_render_semi6 ft bm mem_read pia base) = 49152"
proof -
  let ?cell = "\<lambda>row font_row col. semi6_cell ft bm (4 * uint (pia AND PIA_COLOR_SET))
      (mem_read (int col + (int row * int SCREEN_WIDTH_CHAR + base))) font_row"
  let ?line = "\<lambda>row font_row. concat (map (?cell row font_row) [0..<SCREEN_WIDTH_CHAR])"
  let ?rows = "\<lambda>row. concat (map (?line row) [0..<FONT_HEIGHT])"
  have l: "length (?line row font_row) = 256" for row font_row
    by (rule length_cell_row) (rule length_semi6_cell)
  have r: "length (?rows row) = 3072" for row
    using length_concat_upt [of FONT_HEIGHT "?line row" 256] l by (simp add: FONT_HEIGHT_def)
  show ?thesis
    unfolding vdg_render_semi6_def
    using length_concat_upt [of SCREEN_HEIGHT_CHAR ?rows 3072] r
    by (simp add: SCREEN_HEIGHT_CHAR_def)
qed

lemma nth_alpha_semi4:
  assumes "row < 16" and "font_row < 12" and "col < 32" and "font_col < 8"
  shows "vdg_render_alpha_semi4 ft bm mem_read pia base
           ! (((row * 12 + font_row) * 32 + col) * 8 + font_col)
         = alpha_semi4_cell ft bm (css_color bm pia)
             (mem_read (int col + (int row * 32 + base))) font_row ! font_col"
proof -
  let ?cell = "\<lambda>row font_row col. alpha_semi4_cell ft bm (css_color bm pia)
      (mem_read (int col + (int row * int SCREEN_WIDTH_CHAR + base))) font_row"
  let ?line = "\<lambda>row font_row. concat (map (?cell row font_row) [0..<SCREEN_WIDTH_CHAR])"
  let ?rows = "\<lambda>row. concat (map (?line row) [0..<FONT_HEIGHT])"
  have l: "length (?line r f) = 256" for r f
    by (rule length_cell_row) (rule length_alpha_semi4_cell)
  have r: "length (?rows r) = 3072" for r
    using length_concat_upt [of FONT_HEIGHT "?line r" 256] l by (simp add: FONT_HEIGHT_def)
  have j1: "col * 8 + font_col < 256" using assms by simp
  have j2: "font_row * 256 + (col * 8 + font_col) < 3072" using assms by simp
  have idx: "((row * 12 + font_row) * 32 + col) * 8 + font_col
           = row * 3072 + (font_row * 256 + (col * 8 + font_col))"
    by simp
  have "vdg_render_alpha_semi4 ft bm mem_read pia base
           ! (row * 3072 + (font_row * 256 + (col * 8 + font_col)))
        = ?rows row ! (font_row * 256 + (col * 8 + font_col))"
    unfolding vdg_render_alpha_semi4_def
    using assms(1) r j2
    by (intro nth_concat_upt [of SCREEN_HEIGHT_CHAR ?rows 3072]) (simp_all add: SCREEN_HEIGHT_CHAR_def)
  also have "\<dots> = ?line row font_row ! (col * 8 + font_col)"
    using assms(2) l j1
    by (intro nth_concat_upt [of FONT_HEIGHT "?line row" 256]) (simp_all add: FONT_HEIGHT_def)
  also have "\<dots> = ?cell row font_row col ! font_col"
    using assms(3,4) length_alpha_semi4_cell
    by (intro nth_concat_upt [of SCREEN_WIDTH_CHAR "?cell row font_row" 8])
       (simp_all add: SCREEN_WIDTH_CHAR_def)
  finally show ?thesis
    by (simp only: idx) (simp add: SCREEN_WIDTH_CHAR_def)
qed


lemma nth_cell_pixels:
  "font_col < 8 \<Longrightarrow>
     cell_pixels p fg bg ! font_col = (if p AND drop_bit font_col 0x80 \<noteq> 0 then fg else bg)"
  by (simp add: cell_pixels_def FONT_WIDTH_def)

lemma css_color_values:
  "css_color bm pia =
     (if pia AND 0x01 = 0 then (if bm then FB_LIGHT_GREEN else FB_GREEN) else FB_WHITE)"
  by (simp add: css_color_def colors_def PIA_COLOR_SET_def DEF_COLOR_CSS_0_def
      DEF_COLOR_CSS_1_def)

lemma text_cell_pixel:
  assumes "font_col < 8" and "(word_of_int c :: byte) AND 0x80 = 0"
  shows "alpha_semi4_cell ft bm cs c font_row ! font_col =
     (let lit = (font_img5x7 ft (unat ((word_of_int c :: byte) AND 0x3F)) font_row
                   AND drop_bit font_col 0x80 \<noteq> 0)
      in if (word_of_int c :: byte) AND 0x40 = 0 then (if lit then cs else FB_BLACK)
         else (if lit then FB_BLACK else cs))"
proof -
  have e: "(- 193 :: byte) = 63"
    by simp
  have m: "x AND - 193 = x AND 63" for x :: byte
    by (simp only: e)
  show ?thesis
    using assms
    by (simp add: alpha_semi4_cell_def Let_def nth_cell_pixels m
        CHAR_SEMI_GRAPHICS_def CHAR_INVERSE_def)
qed

text \<open>
  C5 (amended). In the alphanumeric/SG4 render, for every character cell whose byte has
  bit 7 clear, the pixel at font row and column of the cell is the foreground colour where
  the font pattern's bit is set and the background colour elsewhere; the foreground is
  green (light green in the bare-metal build) when the PIA CSS bit is 0 and white, the
  palette's entry for buff, when it is 1, the background is black, and the two are
  swapped when bit 6 of the byte is set.
\<close>

theorem alpha_text_cell_colours:
  assumes "row < 16" and "font_row < 12" and "col < 32" and "font_col < 8"
    and "c = (word_of_int (mem_read (int col + (int row * 32 + base))) :: byte)"
    and "c AND 0x80 = 0"
  shows "vdg_render_alpha_semi4 ft bm mem_read pia base
           ! (((row * 12 + font_row) * 32 + col) * 8 + font_col)
     = (let lit = (font_img5x7 ft (unat (c AND 0x3F)) font_row AND drop_bit font_col 0x80 \<noteq> 0);
            fg = (if pia AND 0x01 = 0 then (if bm then FB_LIGHT_GREEN else FB_GREEN)
                  else FB_WHITE)
        in if c AND 0x40 = 0 then (if lit then fg else FB_BLACK)
           else (if lit then FB_BLACK else fg))"
  using assms(5,6)
  by (simp only: nth_alpha_semi4 [OF assms(1-4)] text_cell_pixel [OF assms(4)]
      css_color_values Let_def)

theorem alpha_text_cell_colours_witness:
  "(0::nat) < 16 \<and> (0::nat) < 12 \<and> (0::nat) < 32 \<and> (0::nat) < 8 \<and>
   (word_of_int ((constant_bus 0x01) (int 0 + (int 0 * 32 + 0x400))) :: byte) AND 0x80 = 0 \<and>
   vdg_render_alpha_semi4 solid_font False (constant_bus 0x01) 0x01 0x400 ! 0 = FB_WHITE \<and>
   vdg_render_alpha_semi4 solid_font False (constant_bus 0x01) 0x00 0x400 ! 0 = FB_GREEN \<and>
   vdg_render_alpha_semi4 solid_font False (constant_bus 0x41) 0x00 0x400 ! 0 = FB_BLACK"
  using alpha_text_cell_colours [of 0 0 0 0 "0x01" "constant_bus 0x01" "0x400" solid_font False "0x01"]
    alpha_text_cell_colours [of 0 0 0 0 "0x01" "constant_bus 0x01" "0x400" solid_font False "0x00"]
    alpha_text_cell_colours [of 0 0 0 0 "0x41" "constant_bus 0x41" "0x400" solid_font False "0x00"]
  by (simp add: solid_font_def constant_bus_def)

text \<open>
  C5 as stated fails for CSS = 1: a lit pixel of a text cell is white (colour table entry
  4), not the orange of the colour table (entry 7, brown in the palette).
\<close>

theorem alpha_text_orange_counterexample:
  "vdg_render_alpha_semi4 solid_font False (constant_bus 0x01) 0x01 0x400 ! 0 = FB_WHITE \<and>
   spec_text_foreground False 0x01 = FB_BROWN \<and>
   vdg_render_alpha_semi4 solid_font False (constant_bus 0x01) 0x01 0x400 ! 0
     \<noteq> spec_text_foreground False 0x01"
proof -
  have "vdg_render_alpha_semi4 solid_font False (constant_bus 0x01) 0x01 0x400
          ! (((0 * 12 + 0) * 32 + 0) * 8 + 0)
        = alpha_semi4_cell solid_font False (css_color False 0x01) 0x01 0 ! 0"
    by (rule trans [OF nth_alpha_semi4]) (simp_all add: constant_bus_def)
  then have "vdg_render_alpha_semi4 solid_font False (constant_bus 0x01) 0x01 0x400 ! 0 = FB_WHITE"
    by (simp add: text_cell_pixel css_color_values solid_font_def)
  moreover have "spec_text_foreground False 0x01 = FB_BROWN"
    by (simp add: spec_text_foreground_def colors_def PIA_COLOR_SET_def)
  ultimately show ?thesis
    by (simp add: FB_WHITE_def FB_BROWN_def)
qed

subsection \<open>VDG: one frame per render\<close>

lemma length_semi_ext_lines:
  "length (semi_ext_lines ft bm mem_read pia addrs font_row) = 256 * length addrs"
proof (induction addrs arbitrary: font_row)
  case Nil
  show ?case by simp
next
  case (Cons a addrs)
  have "length (concat (map (\<lambda>col. alpha_semi4_cell ft bm (css_color bm pia)
          (mem_read (int col + a)) font_row) [0..<SCREEN_WIDTH_CHAR])) = 256"
    by (rule length_cell_row) (rule length_alpha_semi4_cell)
  with Cons.IH show ?case by simp
qed

lemma length_semi_ext_addresses:
  "length (semi_ext_addresses segments seg_scan_lines base) = 16 * (segments * seg_scan_lines)"
proof -
  let ?seg = "\<lambda>row seg_row. map (\<lambda>scan_line.
           (int row * int segments + int seg_row) * int SCREEN_WIDTH_CHAR + base)
           [0..<seg_scan_lines]"
  let ?row = "\<lambda>row. concat (map (?seg row) [0..<segments])"
  have r: "length (?row row) = segments * seg_scan_lines" for row
    by (rule length_concat_upt) simp
  have "length (concat (map ?row [0..<SCREEN_HEIGHT_CHAR]))
      = SCREEN_HEIGHT_CHAR * (segments * seg_scan_lines)"
    by (rule length_concat_upt) (rule r)
  then show ?thesis
    by (simp add: semi_ext_addresses_def SCREEN_HEIGHT_CHAR_def)
qed

lemma length_semi_ext:
  assumes "mode = SEMI_GRAPHICS_8 \<or> mode = SEMI_GRAPHICS_12 \<or> mode = SEMI_GRAPHICS_24"
  shows "length (vdg_render_semi_ext ft bm mem_read pia mode base) = 49152"
  using assms
  by (auto simp: vdg_render_semi_ext_def length_semi_ext_lines length_semi_ext_addresses
      FONT_HEIGHT_def SEMIG8_SEG_HEIGHT_def SEMIG12_SEG_HEIGHT_def SEMIG24_SEG_HEIGHT_def)

lemma store_pixels_fills:
  assumes "buf_index + length ps \<le> length row"
  shows "store_pixels row buf_index ps
         = Inr (take buf_index row @ ps @ drop (buf_index + length ps) row,
                buf_index + length ps)"
  using assms
proof (induction ps arbitrary: row buf_index)
  case Nil
  then show ?case by simp
next
  case (Cons p ps)
  from Cons.prems have lt: "buf_index < length row" by simp
  have a: "take (Suc buf_index) (row[buf_index := p]) = take buf_index row @ [p]"
    using lt by (simp add: take_Suc_conv_app_nth)
  have b: "drop (Suc buf_index + length ps) (row[buf_index := p])
         = drop (Suc buf_index + length ps) row"
    by simp
  from Cons.prems have "Suc buf_index + length ps \<le> length (row[buf_index := p])" by simp
  from Cons.IH [OF this] lt show ?case
    by (simp add: pixel_row_set_def a b)
qed


lemma graph_loop_rows:
  assumes "length row = 256" and "\<And>off. length (px off) = k" and "0 < k" and "k dvd 256"
    and "k dvd buf_index" and "buf_index < 256"
  shows "\<exists>row'. graph_loop px row_rep offs row buf_index out
                  = Inr (row', out @ graph_rows px row_rep offs (take buf_index row)) \<and>
               length row' = 256"
  using assms(1,5,6)
proof (induction offs arbitrary: row buf_index out)
  case Nil
  then show ?case by simp
next
  case (Cons off offs)
  have "k dvd 256 - buf_index"
    using assms(4) Cons.prems(2) by (rule dvd_diff_nat)
  moreover have "0 < 256 - buf_index"
    using Cons.prems(3) by simp
  ultimately have "k \<le> 256 - buf_index"
    by (rule dvd_imp_le)
  with Cons.prems(3) have fit: "buf_index + k \<le> 256"
    by simp
  let ?row1 = "take buf_index row @ px off @ drop (buf_index + k) row"
  have st: "store_pixels row buf_index (px off) = Inr (?row1, buf_index + k)"
    using store_pixels_fills [of buf_index "px off" row] fit Cons.prems(1) assms(2) by simp
  have len1: "length ?row1 = 256"
    using fit Cons.prems(1) assms(2) by simp
  have pend: "take (buf_index + k) ?row1 = take buf_index row @ px off"
    using fit Cons.prems(1) assms(2) by simp
  have lp: "length (take buf_index row @ px off) = buf_index + k"
    using fit Cons.prems(1) assms(2) by simp
  show ?case
  proof (cases "buf_index + k \<ge> 256")
    case True
    with fit have full: "buf_index + k = 256" by simp
    then have whole: "take 256 ?row1 = take buf_index row @ px off"
      using pend by simp
    from Cons.IH [of ?row1 0 "out @ concat (replicate row_rep (take SCREEN_WIDTH_PIX ?row1))"]
      len1
    obtain row' where "graph_loop px row_rep offs ?row1 0
        (out @ concat (replicate row_rep (take SCREEN_WIDTH_PIX ?row1)))
        = Inr (row', (out @ concat (replicate row_rep (take SCREEN_WIDTH_PIX ?row1)))
                     @ graph_rows px row_rep offs (take 0 ?row1))"
      "length row' = 256"
      by auto
    with full st lp whole show ?thesis
      by (simp add: SCREEN_WIDTH_PIX_def Let_def)
  next
    case False
    then have lt: "buf_index + k < 256" by simp
    have dv: "k dvd buf_index + k"
      using Cons.prems(2) by simp
    from Cons.IH [OF len1 dv lt, of out]
    obtain row' where "graph_loop px row_rep offs ?row1 (buf_index + k) out
        = Inr (row', out @ graph_rows px row_rep offs (take (buf_index + k) ?row1))"
      "length row' = 256"
      by auto
    with lt st lp pend show ?thesis
      by (simp add: SCREEN_WIDTH_PIX_def Let_def)
  qed
qed

lemma length_concat_replicate: "length (concat (replicate n xs)) = n * length xs"
  by (induction n) simp_all

lemma length_graph_rows:
  assumes "\<And>off. length (px off) = k" and "k * m = 256" and "length pending = k * j"
    and "j < m"
  shows "length (graph_rows px row_rep offs pending)
         = row_rep * 256 * ((j + length offs) div m)"
  using assms(3,4)
proof (induction offs arbitrary: pending j)
  case Nil
  then show ?case by simp
next
  case (Cons off offs)
  have lp: "length (pending @ px off) = k * Suc j"
    using Cons.prems(1) assms(1) by simp
  show ?case
  proof (cases "Suc j = m")
    case True
    with lp assms(2) have full: "length (pending @ px off) = 256" by simp
    have "length (graph_rows px row_rep offs []) = row_rep * 256 * ((0 + length offs) div m)"
      using Cons.prems(2) by (intro Cons.IH) simp_all
    moreover have "(j + length (off # offs)) div m = Suc (length offs div m)"
      using True Cons.prems(2) by (simp add: div_add_self1 flip: True add_Suc)
    ultimately show ?thesis
      using full by (simp add: SCREEN_WIDTH_PIX_def Let_def length_concat_replicate)
  next
    case False
    with Cons.prems(2) have lt: "Suc j < m" by simp
    moreover have "0 < k"
      using assms(2) by (cases k) simp_all
    ultimately have "k * Suc j < k * m"
      by (rule mult_less_mono2)
    with lp assms(2) have part: "length (pending @ px off) < 256" by simp
    from Cons.IH [OF lp lt] part show ?thesis
      by (simp add: SCREEN_WIDTH_PIX_def Let_def)
  qed
qed


lemma length_resl_pixels:
  "length (resl_pixels mode fg b) = (if mode \<noteq> GRAPHICS_6R then 16 else 8)"
  by (simp add: resl_pixels_def Let_def)

lemma length_color_pixels:
  "length (color_pixels bm mode cs b) = (if mode = GRAPHICS_1C then 16 else 8)"
  by (simp add: color_pixels_def Let_def)

text \<open>
  A graphics loop that starts at index 0 on a row of 256 cells writes a byte string that
  does not depend on what the row held, of \<open>row_rep * 256 * (video_mem div m)\<close> bytes.
\<close>

lemma graph_loop_frame:
  assumes "\<And>off. length (px off) = k" and "0 < k" and "k * m = 256"
  shows "\<exists>W. length W = row_rep * 256 * (video_mem div m) \<and>
           (\<forall>row. length row = 256 \<longrightarrow>
              (\<exists>row'. graph_loop px row_rep [0..<video_mem] row 0 [] = Inr (row', W) \<and>
                      length row' = 256))"
proof -
  let ?W = "graph_rows px row_rep [0..<video_mem] []"
  have dv: "k dvd 256"
    using assms(3) by (metis dvd_triv_left)
  have m: "0 < m"
    using assms(3) by (cases m) simp_all
  have "length ?W = row_rep * 256 * ((0 + length [0..<video_mem]) div m)"
    using assms(1,3) m by (intro length_graph_rows [where k = k]) simp_all
  then have len: "length ?W = row_rep * 256 * (video_mem div m)"
    by simp
  have "\<exists>row'. graph_loop px row_rep [0..<video_mem] row 0 [] = Inr (row', ?W) \<and>
              length row' = 256" if "length row = 256" for row
    using graph_loop_rows [OF that assms(1,2) dv, where buf_index = 0 and row_rep = row_rep
        and offs = "[0..<video_mem]" and out = "[]"]
    by simp
  with len show ?thesis by blast
qed

lemma resl_frame:
  assumes "mode = GRAPHICS_1R \<or> mode = GRAPHICS_2R \<or> mode = GRAPHICS_3R \<or> mode = GRAPHICS_6R"
  shows "\<exists>W. length W = 49152 \<and>
           (\<forall>row. length row = 256 \<longrightarrow>
              (\<exists>row'. vdg_render_resl_graph bm mem_read pia row mode base = Inr (row', W) \<and>
                      length row' = 256))"
proof -
  let ?px = "\<lambda>off. resl_pixels mode (css_color bm pia) (word_of_int (mem_read (int off + base)))"
  from assms consider "mode = GRAPHICS_1R" | "mode = GRAPHICS_2R" | "mode = GRAPHICS_3R"
    | "mode = GRAPHICS_6R" by blast
  then show ?thesis
  proof cases
    case 1
    with graph_loop_frame [of ?px 16 16 3 1024] show ?thesis
      by (simp add: vdg_render_resl_graph_def length_resl_pixels)
  next
    case 2
    with graph_loop_frame [of ?px 16 16 2 1536] show ?thesis
      by (simp add: vdg_render_resl_graph_def length_resl_pixels)
  next
    case 3
    with graph_loop_frame [of ?px 16 16 1 3072] show ?thesis
      by (simp add: vdg_render_resl_graph_def length_resl_pixels)
  next
    case 4
    with graph_loop_frame [of ?px 8 32 1 6144] show ?thesis
      by (simp add: vdg_render_resl_graph_def length_resl_pixels)
  qed
qed

lemma color_frame:
  assumes "mode = GRAPHICS_1C \<or> mode = GRAPHICS_2C \<or> mode = GRAPHICS_3C \<or> mode = GRAPHICS_6C"
  shows "\<exists>W. length W = 49152 \<and>
           (\<forall>row. length row = 256 \<longrightarrow>
              (\<exists>row'. vdg_render_color_graph bm mem_read pia row mode base = Inr (row', W) \<and>
                      length row' = 256))"
proof -
  let ?px = "\<lambda>off. color_pixels bm mode (4 * uint (pia AND PIA_COLOR_SET))
                (word_of_int (mem_read (int off + base)))"
  from assms consider "mode = GRAPHICS_1C" | "mode = GRAPHICS_2C" | "mode = GRAPHICS_3C"
    | "mode = GRAPHICS_6C" by blast
  then show ?thesis
  proof cases
    case 1
    with graph_loop_frame [of ?px 16 16 3 1024] show ?thesis
      by (simp add: vdg_render_color_graph_def length_color_pixels)
  next
    case 2
    with graph_loop_frame [of ?px 8 32 3 2048] show ?thesis
      by (simp add: vdg_render_color_graph_def length_color_pixels)
  next
    case 3
    with graph_loop_frame [of ?px 8 32 2 3072] show ?thesis
      by (simp add: vdg_render_color_graph_def length_color_pixels)
  next
    case 4
    with graph_loop_frame [of ?px 8 32 1 6144] show ?thesis
      by (simp add: vdg_render_color_graph_def length_color_pixels)
  qed
qed


lemma render_pixels_frame:
  assumes "mode \<noteq> DMA" and "mode \<noteq> UNDEFINED"
  shows "\<exists>W. length W = 49152 \<and>
           (\<forall>row. length row = 256 \<longrightarrow>
              (\<exists>row'. render_pixels ft bm mem_read pia row mode base = Inr (row', W) \<and>
                      length row' = 256))"
proof -
  consider (alpha) "mode = ALPHA_INTERNAL \<or> mode = SEMI_GRAPHICS_4"
    | (semi6) "mode = SEMI_GRAPHICS_6 \<or> mode = ALPHA_EXTERNAL"
    | (color) "mode = GRAPHICS_1C \<or> mode = GRAPHICS_2C \<or> mode = GRAPHICS_3C \<or> mode = GRAPHICS_6C"
    | (resl) "mode = GRAPHICS_1R \<or> mode = GRAPHICS_2R \<or> mode = GRAPHICS_3R \<or> mode = GRAPHICS_6R"
    | (ext) "mode = SEMI_GRAPHICS_8 \<or> mode = SEMI_GRAPHICS_12 \<or> mode = SEMI_GRAPHICS_24"
    using assms by (cases mode) simp_all
  then show ?thesis
  proof cases
    case alpha
    then have "render_pixels ft bm mem_read pia row mode base
        = Inr (row, vdg_render_alpha_semi4 ft bm mem_read pia base)" for row
      by (simp add: render_pixels_def)
    with length_alpha_semi4 [of ft bm mem_read pia base] show ?thesis by auto
  next
    case semi6
    then have "render_pixels ft bm mem_read pia row mode base
        = Inr (row, vdg_render_semi6 ft bm mem_read pia base)" for row
      by (auto simp: render_pixels_def)
    with length_semi6 [of ft bm mem_read pia base] show ?thesis by auto
  next
    case color
    then have "render_pixels ft bm mem_read pia row mode base
        = vdg_render_color_graph bm mem_read pia row mode base" for row
      by (auto simp: render_pixels_def)
    with color_frame [OF color, of bm mem_read pia base] show ?thesis by simp
  next
    case resl
    then have "render_pixels ft bm mem_read pia row mode base
        = vdg_render_resl_graph bm mem_read pia row mode base" for row
      by (auto simp: render_pixels_def)
    with resl_frame [OF resl, of bm mem_read pia base] show ?thesis by simp
  next
    case ext
    then have "render_pixels ft bm mem_read pia row mode base
        = Inr (row, vdg_render_semi_ext ft bm mem_read pia mode base)" for row
      by (auto simp: render_pixels_def)
    with length_semi_ext [OF ext, of ft bm mem_read pia base] show ?thesis by auto
  qed
qed

lemma vdg_render_result:
  assumes "vdg_get_mode (sam_video_mode v) (pia_video_mode v) = Inr mode"
    and "mode \<noteq> UNDEFINED"
    and "render_pixels ft bm mem_read (pia_video_mode v) (pixel_row v) mode
           (push_bit 9 (uint (video_ram_offset v))) = Inr (row1, W)"
    and "fb_store (fb v) W = Inr F"
  shows "\<exists>v1. vdg_render ft bm mem_read v = Inr v1 \<and> fb v1 = F \<and> pixel_row v1 = row1 \<and>
              sam_video_mode v1 = sam_video_mode v \<and> pia_video_mode v1 = pia_video_mode v \<and>
              video_ram_offset v1 = video_ram_offset v"
  using assms
  by (cases "mode = prev_mode v") (auto simp: vdg_render_def Let_def)

text \<open>
  C7. For every state of the generator whose SAM and PIA mode bits decode to a mode that
  \<^verbatim>\<open>vdg_render()\<close> renders (any mode but DMA and UNDEFINED, on which it halts), with the
  256 by 192 frame buffer and the 256-byte pixel row, and for every bus: one render writes
  exactly 49152 bytes, which then are the frame buffer, and a second render on the same
  bus leaves the frame buffer byte for byte as the first left it.
\<close>

theorem render_writes_frame_and_repeats:
  assumes "vdg_get_mode (sam_video_mode v) (pia_video_mode v) = Inr mode"
    and "mode \<noteq> DMA" and "mode \<noteq> UNDEFINED"
    and "length (fb v) = SCREEN_WIDTH_PIX * SCREEN_HEIGHT_PIX"
    and "length (pixel_row v) = SCREEN_WIDTH_PIX"
  shows "\<exists>written v1 v2.
     vdg_render_written ft bm mem_read v = Inr written \<and> length written = 49152 \<and>
     vdg_render ft bm mem_read v = Inr v1 \<and> fb v1 = written \<and>
     vdg_render ft bm mem_read v1 = Inr v2 \<and> fb v2 = fb v1"
proof -
  let ?base = "push_bit 9 (uint (video_ram_offset v))"
  from render_pixels_frame [OF assms(2,3), of ft bm mem_read "pia_video_mode v" ?base]
  obtain W where W: "length W = 49152"
    and fr: "\<And>row. length row = 256 \<Longrightarrow>
      \<exists>row'. render_pixels ft bm mem_read (pia_video_mode v) row mode ?base = Inr (row', W) \<and>
             length row' = 256"
    by blast
  from fr [of "pixel_row v"] assms(5)
  obtain row1 where r1: "render_pixels ft bm mem_read (pia_video_mode v) (pixel_row v) mode ?base
      = Inr (row1, W)" "length row1 = 256"
    by (auto simp: SCREEN_WIDTH_PIX_def)
  from fr [OF r1(2)]
  obtain row2 where r2: "render_pixels ft bm mem_read (pia_video_mode v) row1 mode ?base
      = Inr (row2, W)" "length row2 = 256"
    by blast
  have st: "fb_store (fb v) W = Inr W" "fb_store W W = Inr W"
    using W assms(4) by (simp_all add: fb_store_def SCREEN_WIDTH_PIX_def SCREEN_HEIGHT_PIX_def)
  have w: "vdg_render_written ft bm mem_read v = Inr W"
    using assms(1) r1(1) by (simp add: vdg_render_written_def)
  from vdg_render_result [OF assms(1,3) r1(1) st(1)]
  obtain v1 where v1: "vdg_render ft bm mem_read v = Inr v1" "fb v1 = W" "pixel_row v1 = row1"
    "sam_video_mode v1 = sam_video_mode v" "pia_video_mode v1 = pia_video_mode v"
    "video_ram_offset v1 = video_ram_offset v"
    by blast
  have "\<exists>v2. vdg_render ft bm mem_read v1 = Inr v2 \<and> fb v2 = W \<and> pixel_row v2 = row2 \<and>
              sam_video_mode v2 = sam_video_mode v1 \<and> pia_video_mode v2 = pia_video_mode v1 \<and>
              video_ram_offset v2 = video_ram_offset v1"
    using assms(1,3) r2(1) st(2) v1 by (intro vdg_render_result [where mode = mode]) simp_all
  then obtain v2 where "vdg_render ft bm mem_read v1 = Inr v2" "fb v2 = W"
    by blast
  with w W v1 show ?thesis by blast
qed

theorem render_writes_frame_and_repeats_witness:
  "vdg_get_mode (sam_video_mode vdg_init) (pia_video_mode vdg_init) = Inr ALPHA_INTERNAL \<and>
   length (fb vdg_init) = SCREEN_WIDTH_PIX * SCREEN_HEIGHT_PIX \<and>
   length (pixel_row vdg_init) = SCREEN_WIDTH_PIX \<and>
   (\<exists>written v1 v2.
     vdg_render_written solid_font False (constant_bus 0x01) vdg_init = Inr written \<and>
     length written = 49152 \<and>
     vdg_render solid_font False (constant_bus 0x01) vdg_init = Inr v1 \<and> fb v1 = written \<and>
     vdg_render solid_font False (constant_bus 0x01) v1 = Inr v2 \<and> fb v2 = fb v1) \<and>
   vdg_get_mode (sam_video_mode graphics_6r) (pia_video_mode graphics_6r) = Inr GRAPHICS_6R \<and>
   (\<exists>written v1 v2.
     vdg_render_written solid_font False (constant_bus 0xA5) graphics_6r = Inr written \<and>
     length written = 49152 \<and>
     vdg_render solid_font False (constant_bus 0xA5) graphics_6r = Inr v1 \<and> fb v1 = written \<and>
     vdg_render solid_font False (constant_bus 0xA5) v1 = Inr v2 \<and> fb v2 = fb v1)"
proof -
  have m1: "vdg_get_mode (sam_video_mode vdg_init) (pia_video_mode vdg_init) = Inr ALPHA_INTERNAL"
    by (simp add: vdg_init_def vdg_get_mode_def)
  have m2: "vdg_get_mode (sam_video_mode graphics_6r) (pia_video_mode graphics_6r)
      = Inr GRAPHICS_6R"
    by (simp add: graphics_6r_def vdg_init_def vdg_get_mode_def)
  have l: "length (fb vdg_init) = SCREEN_WIDTH_PIX * SCREEN_HEIGHT_PIX"
    "length (pixel_row vdg_init) = SCREEN_WIDTH_PIX"
    "length (fb graphics_6r) = SCREEN_WIDTH_PIX * SCREEN_HEIGHT_PIX"
    "length (pixel_row graphics_6r) = SCREEN_WIDTH_PIX"
    by (simp_all add: graphics_6r_def vdg_init_def)
  from render_writes_frame_and_repeats [OF m1 _ _ l(1,2), of solid_font False "constant_bus 0x01"]
    render_writes_frame_and_repeats [OF m2 _ _ l(3,4), of solid_font False "constant_bus 0xA5"]
    m1 m2 l
  show ?thesis by simp
qed

end
